theory Spec2Isabelle
  imports Main
begin

section \<open>The tokenizer of vmel (src/tokenizer.c)\<close>

text \<open>
  A shallow embedding of \<^verbatim>\<open>src/tokenizer.c\<close>: the keyword table, the token manager
  (\<^verbatim>\<open>TokenMgr_*\<close>) and the scanner \<^verbatim>\<open>build_tokens\<close>. C leaves the behaviour of a
  null dereference, of an access outside an array and of a read of memory that was never
  written undefined; the model gives each of them a value of its own, so that a function
  of the source returns either such a fault or its result.
\<close>

subsection \<open>Faults and results\<close>

datatype fault =
  Null_Dereference
  | Out_Of_Bounds_Read
  | Out_Of_Bounds_Write
  | Uninitialised_Read

text \<open>Sequencing: the first fault ends the computation, as the undefined behaviour would.\<close>

definition bind :: "fault + 'a \<Rightarrow> ('a \<Rightarrow> fault + 'b) \<Rightarrow> fault + 'b" where
  "bind m f = (case m of Inl e \<Rightarrow> Inl e | Inr x \<Rightarrow> f x)"

text \<open>An array element: indeterminate until the program writes it.\<close>

datatype 'a cell = Indeterminate | Init 'a

subsection \<open>Characters\<close>

text \<open>
  Modelled from the spec: \<^verbatim>\<open>tokens.h\<close>, which defines the character macros, is not
  among the sources. The spec fixes the operator, parenthesis, quote, brace and newline
  characters; it names a comment-start character and an identifier sigil without giving
  them, and \<^verbatim>\<open>#\<close> and \<^verbatim>\<open>$\<close> are taken here.
\<close>

abbreviation NUL :: char where "NUL \<equiv> CHR 0x00"
abbreviation NEWLINE :: char where "NEWLINE \<equiv> CHR 0x0A"
abbreviation COMMENT :: char where "COMMENT \<equiv> CHR ''#''"
abbreviation VAR :: char where "VAR \<equiv> CHR ''$''"
abbreviation BANG :: char where "BANG \<equiv> CHR ''!''"
abbreviation EQUAL :: char where "EQUAL \<equiv> CHR ''=''"
abbreviation LPAREN :: char where "LPAREN \<equiv> CHR ''(''"
abbreviation RPAREN :: char where "RPAREN \<equiv> CHR '')''"
abbreviation LESSTHAN :: char where "LESSTHAN \<equiv> CHR ''<''"
abbreviation GREATERTHAN :: char where "GREATERTHAN \<equiv> CHR ''>''"
abbreviation PLUS :: char where "PLUS \<equiv> CHR ''+''"
abbreviation MINUS :: char where "MINUS \<equiv> CHR ''-''"
abbreviation ASTERISK :: char where "ASTERISK \<equiv> CHR ''*''"
abbreviation FSLASH :: char where "FSLASH \<equiv> CHR ''/''"
abbreviation DQUOTE :: char where "DQUOTE \<equiv> CHR 0x22"
abbreviation LBRACE :: char where "LBRACE \<equiv> CHR ''{''"
abbreviation RBRACE :: char where "RBRACE \<equiv> CHR ''}''"

text \<open>
  \<^verbatim>\<open>isspace\<close>, \<^verbatim>\<open>isdigit\<close> and \<^verbatim>\<open>isalpha\<close> of \<^verbatim>\<open>ctype.h\<close> in the C locale. A byte
  above 127 is in none of the three classes.
\<close>

definition isspace :: "char \<Rightarrow> bool" where
  "isspace c = (let n = (of_char c :: nat) in n = 32 \<or> (9 \<le> n \<and> n \<le> 13))"

definition isdigit :: "char \<Rightarrow> bool" where
  "isdigit c = (let n = (of_char c :: nat) in 48 \<le> n \<and> n \<le> 57)"

definition isalpha :: "char \<Rightarrow> bool" where
  "isalpha c = (let n = (of_char c :: nat) in (65 \<le> n \<and> n \<le> 90) \<or> (97 \<le> n \<and> n \<le> 122))"

text \<open>
  Modelled from the spec: \<^verbatim>\<open>is_valid_identifier\<close> is called by tokenizer.c and defined
  in none of the sources; the spec has it true for ASCII letters, digits and the
  underscore.
\<close>

definition is_valid_identifier :: "char \<Rightarrow> bool" where
  "is_valid_identifier c = (isalpha c \<or> isdigit c \<or> c = CHR ''_'')"

subsection \<open>Buffers\<close>

text \<open>
  A \<^verbatim>\<open>char *\<close> buffer is the array it points into, terminator included: \<open>buff[i]\<close> is
  defined for \<open>i\<close> below the length of the array only.
\<close>

definition rd :: "char list \<Rightarrow> nat \<Rightarrow> fault + char" where
  "rd buff i = (if i < length buff then Inr (buff ! i) else Inl Out_Of_Bounds_Read)"

text \<open>\<open>store[i] = c\<close> on the scratch array.\<close>

definition poke :: "char cell list \<Rightarrow> nat \<Rightarrow> char \<Rightarrow> fault + char cell list" where
  "poke st i c = (if i < length st then Inr (st[i := Init c]) else Inl Out_Of_Bounds_Write)"

text \<open>The C string that starts an array: its characters up to the first terminator.\<close>

fun c_str :: "char cell list \<Rightarrow> fault + string" where
  "c_str [] = Inl Out_Of_Bounds_Read"
| "c_str (Indeterminate # cs) = Inl Uninitialised_Read"
| "c_str (Init c # cs) =
     (if c = NUL then Inr [] else bind (c_str cs) (\<lambda>r. Inr (c # r)))"

subsection \<open>Keywords\<close>

text \<open>
  \<^verbatim>\<open>static const char *R_Keywords[KWORDS_SIZE] = {"print", "if", "else"}\<close> with
  \<^verbatim>\<open>#define KWORDS_SIZE 5\<close> (tokenizer.h): the elements without an initialiser are null
  pointers.
\<close>

definition KWORDS_SIZE :: nat where
  "KWORDS_SIZE = 5"

definition R_Keywords :: "string option list" where
  "R_Keywords = map Some [''print'', ''if'', ''else''] @ replicate (KWORDS_SIZE - 3) None"

text \<open>\<open>strcmp(t, str) == 0\<close>; \<open>t\<close> may be a null pointer, \<open>str\<close> is not.\<close>

definition strcmp_eq :: "string option \<Rightarrow> string \<Rightarrow> fault + bool" where
  "strcmp_eq t str = (case t of None \<Rightarrow> Inl Null_Dereference | Some k \<Rightarrow> Inr (k = str))"

text \<open>The \<^verbatim>\<open>for\<close> loop of \<^verbatim>\<open>is_valid_keyword\<close> from index \<open>x\<close> on.\<close>

function keyword_loop :: "nat \<Rightarrow> string \<Rightarrow> fault + int" where
  "keyword_loop x str =
     (if x < KWORDS_SIZE then
        bind (strcmp_eq (R_Keywords ! x) str)
          (\<lambda>same. if same then Inr 1 else keyword_loop (Suc x) str)
      else Inr 0)"
  by pat_completeness auto
termination
  by (relation "measure (\<lambda>(x, str). KWORDS_SIZE - x)") auto

declare keyword_loop.simps [simp del]

definition is_valid_keyword :: "string option \<Rightarrow> fault + int" where
  "is_valid_keyword str = (case str of None \<Rightarrow> Inr 0 | Some s \<Rightarrow> keyword_loop 0 s)"

subsection \<open>Tokens and the token manager\<close>

text \<open>
  A token as \<^verbatim>\<open>TokenMgr_add_token\<close> fills it: type and value are copied by
  \<^verbatim>\<open>strcpy\<close>, the length of the value is stored. tokenizer.h declares a line number
  field too; it is \<open>None\<close> while nothing has been assigned to it. Both \<^verbatim>\<open>strcpy\<close>
  targets are taken to be large enough for what \<^verbatim>\<open>build_tokens\<close> passes (the
  parameters are declared \<^verbatim>\<open>char tok_type[50]\<close> and \<^verbatim>\<open>char tok_val[100]\<close>).
\<close>

record Token =
  tok_type :: string
  tok_val :: string
  val_length :: nat
  tok_lineno :: "int option"

text \<open>
  The manager as tokenizer.c uses it: the array \<open>toks\<close> of token pointers, the counter
  \<open>tok_ctr\<close>, and \<open>curr_tok\<close>, a pointer into \<open>toks\<close> (an index, \<open>None\<close> for the null
  pointer). The declaration with these members is not among the sources (tokenizer.h
  declares \<open>tok_curr\<close>, \<open>tok_ctr\<close> and \<open>tok_cap\<close>); tokenizer.c indexes \<open>toks\<close> as an
  array inside the manager and never allocates or resizes it, so its length is fixed, and
  it is the length of the list here. A token pointer is the index of the token among the
  allocated objects.
\<close>

record TokenMgr =
  toks :: "nat cell list"
  tok_ctr :: nat
  curr_tok :: "nat option"

datatype message =
  Buffer_Invalid
  | Invalid_Token_Manager
  | Invalid_Syntax string int

text \<open>
  What the functions share besides the manager: the tokens allocated so far, the number
  of allocations \<^verbatim>\<open>malloc\<close> can still satisfy, and what was printed.
\<close>

record world =
  objs :: "Token list"
  avail :: nat
  out :: "message list"

definition malloc_Token :: "world \<Rightarrow> nat option \<times> world" where
  "malloc_Token w =
     (if avail w = 0 then (None, w)
      else (Some (length (objs w)),
            w\<lparr>objs := objs w @ [\<lparr>tok_type = [], tok_val = [], val_length = 0, tok_lineno = None\<rparr>],
              avail := avail w - 1\<rparr>))"

text \<open>
  \<^verbatim>\<open>TokenMgr_new\<close>: the counter at zero, the cursor null, \<open>toks\<close> as \<^verbatim>\<open>malloc\<close> left
  it. The manager itself is taken as allocated; \<open>cap\<close> is the length of its array.
\<close>

definition TokenMgr_new :: "nat \<Rightarrow> TokenMgr" where
  "TokenMgr_new cap = \<lparr>toks = replicate cap Indeterminate, tok_ctr = 0, curr_tok = None\<rparr>"

text \<open>\<open>*tok_mgr->curr_tok\<close>: the element of \<open>toks\<close> the cursor points at.\<close>

definition deref_cursor :: "TokenMgr \<Rightarrow> fault + nat option" where
  "deref_cursor m =
     (case curr_tok m of
        None \<Rightarrow> Inl Null_Dereference
      | Some i \<Rightarrow>
          if i < length (toks m) then
            (case toks m ! i of Indeterminate \<Rightarrow> Inl Uninitialised_Read | Init p \<Rightarrow> Inr (Some p))
          else Inl Out_Of_Bounds_Read)"

text \<open>\<open>tok_mgr->toks[i]\<close> as a value.\<close>

definition toks_at :: "TokenMgr \<Rightarrow> nat \<Rightarrow> fault + nat" where
  "toks_at m i =
     (if i < length (toks m) then
        (case toks m ! i of Indeterminate \<Rightarrow> Inl Uninitialised_Read | Init p \<Rightarrow> Inr p)
      else Inl Out_Of_Bounds_Read)"

definition TokenMgr_current_token :: "TokenMgr option \<Rightarrow> fault + nat option" where
  "TokenMgr_current_token tok_mgr =
     (case tok_mgr of None \<Rightarrow> Inr None | Some m \<Rightarrow> deref_cursor m)"

definition TokenMgr_add_token ::
    "world \<Rightarrow> TokenMgr option \<Rightarrow> string \<Rightarrow> string \<Rightarrow> fault + (int \<times> world \<times> TokenMgr option)" where
  "TokenMgr_add_token w tok_mgr ty v =
     (case tok_mgr of
        None \<Rightarrow> Inr (1, w\<lparr>out := out w @ [Invalid_Token_Manager]\<rparr>, None)
      | Some m \<Rightarrow>
          (case malloc_Token w of
             (None, w') \<Rightarrow> Inl Null_Dereference
           | (Some tmp, w') \<Rightarrow>
               let w'' = w'\<lparr>objs := (objs w')[tmp :=
                            \<lparr>tok_type = ty, tok_val = v, val_length = length v, tok_lineno = None\<rparr>]\<rparr>
               in if tok_ctr m < length (toks m) then
                    Inr (0, w'', Some (m\<lparr>toks := (toks m)[tok_ctr m := Init tmp],
                                         tok_ctr := tok_ctr m + 1\<rparr>))
                  else Inl Out_Of_Bounds_Write))"

text \<open>
  \<open>tok_ctr\<close> is a \<^verbatim>\<open>size_t\<close>: \<open>tok_ctr - 1\<close> at zero is the largest value of the type,
  an index outside every array.
\<close>

definition last_index :: "TokenMgr \<Rightarrow> fault + nat" where
  "last_index m = (if tok_ctr m = 0 then Inl Out_Of_Bounds_Read else Inr (tok_ctr m - 1))"

definition TokenMgr_next_token :: "TokenMgr option \<Rightarrow> fault + (nat option \<times> TokenMgr option)" where
  "TokenMgr_next_token tok_mgr =
     (case tok_mgr of
        None \<Rightarrow> Inr (None, None)
      | Some m \<Rightarrow>
          (case curr_tok m of
             None \<Rightarrow>
               (let m' = m\<lparr>curr_tok := Some 0\<rparr>
                in bind (deref_cursor m') (\<lambda>t. Inr (t, Some m')))
           | Some i \<Rightarrow>
               bind (deref_cursor m) (\<lambda>cur.
               bind (last_index m) (\<lambda>l.
               bind (toks_at m l) (\<lambda>final.
                 if cur = Some final then Inr (None, Some m)
                 else (let m' = m\<lparr>curr_tok := Some (i + 1)\<rparr>
                       in bind (deref_cursor m') (\<lambda>t. Inr (t, Some m'))))))))"

definition TokenMgr_prev_token :: "TokenMgr option \<Rightarrow> fault + (nat option \<times> TokenMgr option)" where
  "TokenMgr_prev_token tok_mgr =
     (case tok_mgr of
        None \<Rightarrow> Inr (None, None)
      | Some m \<Rightarrow>
          (case curr_tok m of
             None \<Rightarrow>
               bind (last_index m) (\<lambda>l.
                 let m' = m\<lparr>curr_tok := Some l\<rparr>
                 in bind (deref_cursor m') (\<lambda>t. Inr (t, Some m')))
           | Some i \<Rightarrow>
               bind (deref_cursor m) (\<lambda>cur.
               bind (toks_at m 0) (\<lambda>first.
                 if cur = Some first then Inr (None, Some m)
                 else if i = 0 then Inl Out_Of_Bounds_Read
                 else (let m' = m\<lparr>curr_tok := Some (i - 1)\<rparr>
                       in bind (deref_cursor m') (\<lambda>t. Inr (t, Some m')))))))"

definition TokenMgr_reset_token :: "TokenMgr option \<Rightarrow> TokenMgr option" where
  "TokenMgr_reset_token tok_mgr =
     (case tok_mgr of None \<Rightarrow> None | Some m \<Rightarrow> Some (m\<lparr>curr_tok := None\<rparr>))"

definition TokenMgr_clear_tokens :: "TokenMgr option \<Rightarrow> TokenMgr option" where
  "TokenMgr_clear_tokens tok_mgr =
     (case tok_mgr of None \<Rightarrow> None | Some m \<Rightarrow> Some (m\<lparr>curr_tok := None, tok_ctr := 0\<rparr>))"

definition get_first_token :: "TokenMgr option \<Rightarrow> fault + nat option" where
  "get_first_token tok_mgr =
     (case tok_mgr of
        None \<Rightarrow> Inr None
      | Some m \<Rightarrow> if tok_ctr m < 1 then Inr None else bind (toks_at m 0) (\<lambda>p. Inr (Some p)))"

definition get_last_token :: "TokenMgr option \<Rightarrow> fault + nat option" where
  "get_last_token tok_mgr =
     (case tok_mgr of
        None \<Rightarrow> Inr None
      | Some m \<Rightarrow>
          if tok_ctr m < 1 then Inr None else bind (toks_at m (tok_ctr m - 1)) (\<lambda>p. Inr (Some p)))"

lemma bind_Inl [simp]: "bind (Inl e) f = Inl e"
  by (simp add: bind_def)

lemma bind_Inr [simp]: "bind (Inr x) f = f x"
  by (simp add: bind_def)

lemma bind_cong [fundef_cong]:
  "m = m' \<Longrightarrow> (\<And>x. m' = Inr x \<Longrightarrow> f x = f' x) \<Longrightarrow> bind m f = bind m' f'"
  by (cases m') (simp_all add: bind_def)

lemma bind_eq_Inr: "bind m f = Inr y \<longleftrightarrow> (\<exists>x. m = Inr x \<and> f x = Inr y)"
  by (cases m) simp_all

lemma rd_eq_Inr: "rd buff i = Inr c \<longleftrightarrow> i < length buff \<and> c = buff ! i"
  by (auto simp: rd_def)

lemma poke_eq_Inr: "poke st i c = Inr st' \<longleftrightarrow> i < length st \<and> st' = st[i := Init c]"
  by (auto simp: poke_def)

subsection \<open>The scanner\<close>

text \<open>
  The local variables of \<^verbatim>\<open>build_tokens\<close> and what it works on: the index \<open>bidx\<close> into
  the buffer, the scratch array \<open>store\<close> (\<^verbatim>\<open>char store[100]\<close>, indeterminate at first)
  with its counter \<open>stctr\<close>, the error flag, the line counter, and the manager the tokens
  go to. The two counters and \<open>bidx\<close> are C \<^verbatim>\<open>int\<close>s that only count up from zero; a
  buffer of more bytes or lines than an \<^verbatim>\<open>int\<close> counts is outside the model.
\<close>

record scan =
  bidx :: nat
  stctr :: nat
  store :: "char cell list"
  error :: int
  lineno :: int
  env :: world
  tokmgr :: "TokenMgr option"

text \<open>\<open>while (c != NEWLINE && c != '\0') c = buff[++bidx];\<close>\<close>

function skip_comment :: "char list \<Rightarrow> nat \<Rightarrow> char \<Rightarrow> fault + nat" where
  "skip_comment buff i c =
     (if c \<noteq> NEWLINE \<and> c \<noteq> NUL then
        bind (rd buff (i + 1)) (\<lambda>c'. skip_comment buff (i + 1) c')
      else Inr i)"
  by pat_completeness auto
termination
  by (relation "measure (\<lambda>(buff, i, c). length buff - i)") (auto simp: rd_eq_Inr)

declare skip_comment.simps [simp del]

text \<open>
  \<open>while (cond(c)) { store[stctr++] = c; c = buff[++bidx]; }\<close>: the loop the source
  writes six times, each with a condition of its own.
\<close>

function accumulate :: "(char \<Rightarrow> bool) \<Rightarrow> char list \<Rightarrow> scan \<Rightarrow> char \<Rightarrow> fault + (scan \<times> char)" where
  "accumulate cond buff s c =
     (if cond c then
        bind (poke (store s) (stctr s) c) (\<lambda>st.
        bind (rd buff (bidx s + 1)) (\<lambda>c'.
          accumulate cond buff (s\<lparr>store := st, stctr := stctr s + 1, bidx := bidx s + 1\<rparr>) c'))
      else Inr (s, c))"
  by pat_completeness auto
termination
  by (relation "measure (\<lambda>(cond, buff, s, c). length buff - bidx s)") (auto simp: rd_eq_Inr)

declare accumulate.simps [simp del]

text \<open>\<open>TokenMgr_add_token(tokmgr, ty, v)\<close>, its return value dropped as the scanner does.\<close>

definition emit :: "scan \<Rightarrow> string \<Rightarrow> string \<Rightarrow> fault + scan" where
  "emit s ty v =
     bind (TokenMgr_add_token (env s) (tokmgr s) ty v) (\<lambda>(r, w, m). Inr (s\<lparr>env := w, tokmgr := m\<rparr>))"

text \<open>\<open>store[stctr] = '\0'\<close>\<close>

definition terminate_store :: "scan \<Rightarrow> fault + scan" where
  "terminate_store s = bind (poke (store s) (stctr s) NUL) (\<lambda>st. Inr (s\<lparr>store := st\<rparr>))"

text \<open>\<open>TokenMgr_add_token(tokmgr, ty, store); stctr = 0;\<close>\<close>

definition emit_store :: "scan \<Rightarrow> string \<Rightarrow> fault + scan" where
  "emit_store s ty =
     bind (c_str (store s)) (\<lambda>v. bind (emit s ty v) (\<lambda>s'. Inr (s'\<lparr>stctr := 0\<rparr>)))"

text \<open>The branches of the loop body, in the order of the source.\<close>

definition lex_comment :: "char list \<Rightarrow> scan \<Rightarrow> fault + scan" where
  "lex_comment buff s =
     bind (skip_comment buff (bidx s) (buff ! bidx s)) (\<lambda>i. Inr (s\<lparr>bidx := i\<rparr>))"

definition lex_bang :: "char list \<Rightarrow> scan \<Rightarrow> fault + scan" where
  "lex_bang buff s =
     bind (rd buff (bidx s + 1)) (\<lambda>n.
       if n = EQUAL then
         bind (emit s ''OPERATOR'' ''NOTEQUALTO'') (\<lambda>s'. Inr (s'\<lparr>bidx := bidx s' + 1 + 1\<rparr>))
       else bind (emit s ''OPERATOR'' ''NOT'') (\<lambda>s'. Inr (s'\<lparr>bidx := bidx s' + 1\<rparr>)))"

definition lex_lessthan :: "char list \<Rightarrow> scan \<Rightarrow> fault + scan" where
  "lex_lessthan buff s =
     bind (rd buff (bidx s + 1)) (\<lambda>n.
       if n = EQUAL then
         bind (emit s ''OPERATOR'' ''LTEQTO'') (\<lambda>s'. Inr (s'\<lparr>bidx := bidx s' + 1 + 1\<rparr>))
       else bind (emit s ''OPERATOR'' ''LESSTHAN'') (\<lambda>s'. Inr (s'\<lparr>bidx := bidx s' + 1\<rparr>)))"

text \<open>\<open>switch (buff[++bidx])\<close>: the default case steps back before the common \<open>bidx++\<close>.\<close>

definition lex_greaterthan :: "char list \<Rightarrow> scan \<Rightarrow> fault + scan" where
  "lex_greaterthan buff s =
     (let s1 = s\<lparr>bidx := bidx s + 1\<rparr> in
      bind (rd buff (bidx s1)) (\<lambda>n.
        if n = EQUAL then
          bind (emit s1 ''OPERATOR'' ''GTEQTO'') (\<lambda>s'. Inr (s'\<lparr>bidx := bidx s' + 1\<rparr>))
        else if n = LESSTHAN then
          bind (emit s1 ''OPERATOR'' ''BETWEEN'') (\<lambda>s'. Inr (s'\<lparr>bidx := bidx s' + 1\<rparr>))
        else
          bind (emit (s1\<lparr>bidx := bidx s1 - 1\<rparr>) ''OPERATOR'' ''GREATERTHAN'')
            (\<lambda>s'. Inr (s'\<lparr>bidx := bidx s' + 1\<rparr>))))"

definition lex_equal :: "char list \<Rightarrow> scan \<Rightarrow> fault + scan" where
  "lex_equal buff s =
     bind (rd buff (bidx s + 1)) (\<lambda>n.
       if n = EQUAL then
         bind (emit s ''OPERATOR'' ''EQUALTO'') (\<lambda>s'. Inr (s'\<lparr>bidx := bidx s' + 1 + 1\<rparr>))
       else bind (emit s ''OPERATOR'' ''EQUAL'') (\<lambda>s'. Inr (s'\<lparr>bidx := bidx s' + 1\<rparr>)))"

text \<open>A token of one character: \<open>TokenMgr_add_token(tokmgr, ty, v); bidx++;\<close>\<close>

definition lex_single :: "scan \<Rightarrow> string \<Rightarrow> string \<Rightarrow> fault + scan" where
  "lex_single s ty v = bind (emit s ty v) (\<lambda>s'. Inr (s'\<lparr>bidx := bidx s' + 1\<rparr>))"

definition lex_string :: "char list \<Rightarrow> scan \<Rightarrow> fault + scan" where
  "lex_string buff s =
     bind (rd buff (bidx s + 1)) (\<lambda>c1.
     bind (accumulate (\<lambda>c. c \<noteq> DQUOTE \<and> c \<noteq> NUL \<and> c \<noteq> NEWLINE) buff
             (s\<lparr>bidx := bidx s + 1\<rparr>) c1) (\<lambda>(s2, c2).
     bind (terminate_store s2) (\<lambda>s3.
       if c2 \<noteq> DQUOTE then Inr (s3\<lparr>error := 1\<rparr>)
       else bind (emit_store s3 ''STRING'') (\<lambda>s4. Inr (s4\<lparr>bidx := bidx s4 + 1\<rparr>)))))"

definition lex_var :: "char list \<Rightarrow> scan \<Rightarrow> fault + scan" where
  "lex_var buff s =
     bind (rd buff (bidx s + 1)) (\<lambda>c1.
     bind (accumulate is_valid_identifier buff (s\<lparr>bidx := bidx s + 1\<rparr>) c1) (\<lambda>(s2, c2).
     bind (terminate_store s2) (\<lambda>s3. emit_store s3 ''IDENTIFIER'')))"

definition lex_integer :: "char list \<Rightarrow> scan \<Rightarrow> fault + scan" where
  "lex_integer buff s =
     bind (accumulate isdigit buff s (buff ! bidx s)) (\<lambda>(s2, c2).
     bind (terminate_store s2) (\<lambda>s3. emit_store s3 ''INTEGER''))"

definition lex_group :: "char list \<Rightarrow> scan \<Rightarrow> fault + scan" where
  "lex_group buff s =
     bind (rd buff (bidx s + 1)) (\<lambda>c1.
       let s1 = s\<lparr>bidx := bidx s + 1\<rparr> in
       if \<not> is_valid_identifier c1 then
         bind (poke (store s1) (stctr s1) c1) (\<lambda>st.
         bind (terminate_store (s1\<lparr>store := st, stctr := stctr s1 + 1\<rparr>)) (\<lambda>s2.
           Inr (s2\<lparr>error := 1\<rparr>)))
       else
         bind (accumulate is_valid_identifier buff s1 c1) (\<lambda>(s2, c2).
         bind (terminate_store s2) (\<lambda>s3.
           if c2 \<noteq> RBRACE then Inr (s3\<lparr>error := 1\<rparr>)
           else bind (emit_store s3 ''GROUP'') (\<lambda>s4. Inr (s4\<lparr>bidx := bidx s4 + 1\<rparr>)))))"

definition lex_word :: "char list \<Rightarrow> scan \<Rightarrow> fault + scan" where
  "lex_word buff s =
     bind (accumulate is_valid_identifier buff s (buff ! bidx s)) (\<lambda>(s2, c2).
     bind (terminate_store s2) (\<lambda>s3.
     bind (c_str (store s3)) (\<lambda>word.
     bind (is_valid_keyword (Some word)) (\<lambda>k.
       if k \<noteq> 0 then emit_store s3 ''KEYWORD''
       else Inr (s3\<lparr>error := 1, stctr := 0\<rparr>)))))"

text \<open>
  The last branch. \<open>c != VAR & c != NEWLINE\<close> is a bitwise \<open>&\<close> of two comparisons,
  which is their conjunction; the condition does not test for the terminator.
\<close>

definition lex_unknown :: "char list \<Rightarrow> scan \<Rightarrow> fault + scan" where
  "lex_unknown buff s =
     bind (poke (store s) (stctr s) (buff ! bidx s)) (\<lambda>st.
     bind (rd buff (bidx s + 1)) (\<lambda>c1.
     bind (accumulate
             (\<lambda>c. c \<noteq> COMMENT \<and> c \<noteq> LBRACE \<and> c \<noteq> RBRACE \<and> c \<noteq> DQUOTE
                  \<and> (c \<noteq> VAR \<and> c \<noteq> NEWLINE) \<and> c \<noteq> EQUAL)
             buff (s\<lparr>store := st, stctr := stctr s + 1, bidx := bidx s + 1\<rparr>) c1) (\<lambda>(s2, c2).
     bind (terminate_store s2) (\<lambda>s3. Inr (s3\<lparr>error := 1\<rparr>)))))"

text \<open>One turn of the \<^verbatim>\<open>while\<close> loop, entered with \<open>buff[bidx]\<close> read by the loop test.\<close>

definition lex_step :: "char list \<Rightarrow> scan \<Rightarrow> fault + scan" where
  "lex_step buff s =
     (let c = buff ! bidx s in
      if c = COMMENT then lex_comment buff s
      else if c = NEWLINE then Inr (s\<lparr>lineno := lineno s + 1, bidx := bidx s + 1\<rparr>)
      else if c = BANG then lex_bang buff s
      else if isspace c then Inr (s\<lparr>bidx := bidx s + 1\<rparr>)
      else if c = LPAREN then lex_single s ''LPAREN'' ''(''
      else if c = RPAREN then lex_single s ''RPAREN'' '')''
      else if c = LESSTHAN then lex_lessthan buff s
      else if c = GREATERTHAN then lex_greaterthan buff s
      else if c = EQUAL then lex_equal buff s
      else if c = PLUS then lex_single s ''OPERATOR'' ''PLUS''
      else if c = MINUS then lex_single s ''OPERATOR'' ''MINUS''
      else if c = ASTERISK then lex_single s ''OPERATOR'' ''ASTERISK''
      else if c = FSLASH then lex_single s ''OPERATOR'' ''FSLASH''
      else if c = DQUOTE then lex_string buff s
      else if c = VAR then lex_var buff s
      else if isdigit c then lex_integer buff s
      else if c = LBRACE then lex_group buff s
      else if isalpha c then lex_word buff s
      else lex_unknown buff s)"


subsection \<open>Every turn of the loop moves on\<close>

lemma skip_comment_le: "skip_comment buff i c = Inr j \<Longrightarrow> i \<le> j"
proof (induction buff i c rule: skip_comment.induct)
  case (1 buff i c)
  show ?case
  proof (cases "c \<noteq> NEWLINE \<and> c \<noteq> NUL")
    case True
    with "1.prems" obtain c' where r: "rd buff (i + 1) = Inr c'"
      and k: "skip_comment buff (i + 1) c' = Inr j"
      by (subst (asm) skip_comment.simps) (auto simp: bind_eq_Inr)
    from "1.IH" [OF True r k] show ?thesis by simp
  next
    case False
    with "1.prems" show ?thesis by (subst (asm) skip_comment.simps) auto
  qed
qed

lemma skip_comment_lt:
  "skip_comment buff i c = Inr j \<Longrightarrow> c \<noteq> NEWLINE \<Longrightarrow> c \<noteq> NUL \<Longrightarrow> i < j"
  by (subst (asm) skip_comment.simps) (auto simp: bind_eq_Inr dest: skip_comment_le)

lemma accumulate_frame:
  "accumulate cond buff s c = Inr (s', c') \<Longrightarrow>
     bidx s \<le> bidx s' \<and> error s' = error s \<and> lineno s' = lineno s
     \<and> env s' = env s \<and> tokmgr s' = tokmgr s"
proof (induction cond buff s c rule: accumulate.induct)
  case (1 cond buff s c)
  show ?case
  proof (cases "cond c")
    case True
    with "1.prems" obtain st c1 where p: "poke (store s) (stctr s) c = Inr st"
      and r: "rd buff (bidx s + 1) = Inr c1"
      and k: "accumulate cond buff (s\<lparr>store := st, stctr := stctr s + 1, bidx := bidx s + 1\<rparr>) c1
                = Inr (s', c')"
      by (subst (asm) accumulate.simps) (auto simp: bind_eq_Inr)
    from "1.IH" [OF True p r k] show ?thesis by simp
  next
    case False
    with "1.prems" show ?thesis by (subst (asm) accumulate.simps) auto
  qed
qed

lemma accumulate_lt:
  "accumulate cond buff s c = Inr (s', c') \<Longrightarrow> cond c \<Longrightarrow> bidx s < bidx s'"
  by (subst (asm) accumulate.simps) (auto simp: bind_eq_Inr dest!: accumulate_frame)

lemma emit_frame:
  "emit s ty v = Inr s' \<Longrightarrow>
     bidx s' = bidx s \<and> error s' = error s \<and> lineno s' = lineno s
     \<and> store s' = store s \<and> stctr s' = stctr s"
  by (auto simp: emit_def bind_eq_Inr)

lemma terminate_store_frame:
  "terminate_store s = Inr s' \<Longrightarrow>
     bidx s' = bidx s \<and> error s' = error s \<and> lineno s' = lineno s
     \<and> env s' = env s \<and> tokmgr s' = tokmgr s \<and> stctr s' = stctr s"
  by (auto simp: terminate_store_def bind_eq_Inr)

lemma emit_store_frame:
  "emit_store s ty = Inr s' \<Longrightarrow>
     bidx s' = bidx s \<and> error s' = error s \<and> lineno s' = lineno s \<and> store s' = store s"
  by (auto simp: emit_store_def bind_eq_Inr dest!: emit_frame)

lemma isalpha_identifier: "isalpha c \<Longrightarrow> is_valid_identifier c"
  by (simp add: is_valid_identifier_def)

lemma lex_comment_progress:
  "lex_comment buff s = Inr s' \<Longrightarrow> buff ! bidx s = COMMENT \<Longrightarrow> bidx s < bidx s'"
  by (auto simp: lex_comment_def bind_eq_Inr dest: skip_comment_lt)

lemma lex_single_progress: "lex_single s ty v = Inr s' \<Longrightarrow> bidx s < bidx s'"
  by (auto simp: lex_single_def bind_eq_Inr dest!: emit_frame)

lemma lex_bang_progress: "lex_bang buff s = Inr s' \<Longrightarrow> bidx s < bidx s'"
  by (auto simp: lex_bang_def bind_eq_Inr dest!: emit_frame split: if_splits)

lemma lex_lessthan_progress: "lex_lessthan buff s = Inr s' \<Longrightarrow> bidx s < bidx s'"
  by (auto simp: lex_lessthan_def bind_eq_Inr dest!: emit_frame split: if_splits)

lemma lex_equal_progress: "lex_equal buff s = Inr s' \<Longrightarrow> bidx s < bidx s'"
  by (auto simp: lex_equal_def bind_eq_Inr dest!: emit_frame split: if_splits)

lemma lex_greaterthan_progress: "lex_greaterthan buff s = Inr s' \<Longrightarrow> bidx s < bidx s'"
  by (auto simp: lex_greaterthan_def Let_def bind_eq_Inr dest!: emit_frame split: if_splits)

lemma lex_string_progress: "lex_string buff s = Inr s' \<Longrightarrow> bidx s < bidx s'"
  by (auto simp: lex_string_def bind_eq_Inr
      dest!: emit_store_frame terminate_store_frame accumulate_frame split: if_splits)

lemma lex_var_progress: "lex_var buff s = Inr s' \<Longrightarrow> bidx s < bidx s'"
  by (auto simp: lex_var_def bind_eq_Inr
      dest!: emit_store_frame terminate_store_frame accumulate_frame)

lemma lex_integer_progress:
  "lex_integer buff s = Inr s' \<Longrightarrow> isdigit (buff ! bidx s) \<Longrightarrow> bidx s < bidx s'"
  by (auto simp: lex_integer_def bind_eq_Inr
      dest!: emit_store_frame terminate_store_frame dest: accumulate_lt)

lemma lex_group_progress: "lex_group buff s = Inr s' \<Longrightarrow> bidx s < bidx s'"
  by (auto simp: lex_group_def Let_def bind_eq_Inr
      dest!: emit_store_frame terminate_store_frame accumulate_frame split: if_splits)

lemma lex_word_progress:
  "lex_word buff s = Inr s' \<Longrightarrow> isalpha (buff ! bidx s) \<Longrightarrow> bidx s < bidx s'"
  by (auto simp: lex_word_def bind_eq_Inr isalpha_identifier
      dest!: emit_store_frame terminate_store_frame dest: accumulate_lt split: if_splits)

lemma lex_unknown_progress: "lex_unknown buff s = Inr s' \<Longrightarrow> bidx s < bidx s'"
  by (auto simp: lex_unknown_def bind_eq_Inr
      dest!: terminate_store_frame accumulate_frame)

lemma lex_step_progress: "lex_step buff s = Inr s' \<Longrightarrow> bidx s < bidx s'"
  unfolding lex_step_def Let_def
  by (auto split: if_splits
      dest: lex_comment_progress lex_single_progress lex_bang_progress lex_lessthan_progress
        lex_equal_progress lex_greaterthan_progress lex_string_progress lex_var_progress
        lex_integer_progress lex_group_progress lex_word_progress lex_unknown_progress)

text \<open>\<open>while (buff[bidx] != '\0' && !error) { ... }\<close>\<close>

function scan_loop :: "char list \<Rightarrow> scan \<Rightarrow> fault + scan" where
  "scan_loop buff s =
     bind (rd buff (bidx s)) (\<lambda>c.
       if c \<noteq> NUL \<and> error s = 0 then bind (lex_step buff s) (\<lambda>s'. scan_loop buff s')
       else Inr s)"
  by pat_completeness auto
termination
  by (relation "measure (\<lambda>(buff, s). length buff - bidx s)")
    (auto simp: rd_eq_Inr dest: lex_step_progress)

declare scan_loop.simps [simp del]

text \<open>
  \<^verbatim>\<open>build_tokens\<close>: a null buffer or a null manager is refused; otherwise the loop runs
  from the initial values of the locals (\<open>start\<close>), and an error is reported with the
  scratch text and the line counter. The result is the return value, with the world and
  the manager as the call leaves them.
\<close>

definition start :: "world \<Rightarrow> TokenMgr \<Rightarrow> scan" where
  "start w m = \<lparr>bidx = 0, stctr = 0, store = replicate 100 Indeterminate,
                error = 0, lineno = 1, env = w, tokmgr = Some m\<rparr>"

definition build_tokens ::
    "world \<Rightarrow> char list option \<Rightarrow> TokenMgr option \<Rightarrow> fault + (int \<times> world \<times> TokenMgr option)" where
  "build_tokens w buff mgr =
     (case buff of
        None \<Rightarrow> Inr (1, w\<lparr>out := out w @ [Buffer_Invalid]\<rparr>, mgr)
      | Some b \<Rightarrow>
          (case mgr of
             None \<Rightarrow> Inr (1, w\<lparr>out := out w @ [Invalid_Token_Manager]\<rparr>, None)
           | Some m \<Rightarrow>
               bind (scan_loop b (start w m)) (\<lambda>s.
                 if error s \<noteq> 0 then
                   bind (c_str (store s)) (\<lambda>fragment.
                     Inr (error s,
                          (env s)\<lparr>out := out (env s) @ [Invalid_Syntax fragment (lineno s)]\<rparr>,
                          tokmgr s))
                 else Inr (error s, env s, tokmgr s))))"

text \<open>
  The tokens a manager holds, in the order of \<open>toks\<close>: what \<^verbatim>\<open>TokenMgr_print_tokens\<close>
  walks, \<open>tok_mgr->toks[i]\<close> dereferenced for every \<open>i\<close> below \<open>tok_ctr\<close>.
\<close>

definition token_at :: "world \<Rightarrow> TokenMgr \<Rightarrow> nat \<Rightarrow> fault + Token" where
  "token_at w m i =
     bind (toks_at m i)
       (\<lambda>p. if p < length (objs w) then Inr (objs w ! p) else Inl Out_Of_Bounds_Read)"

definition tokens_of :: "world \<Rightarrow> TokenMgr \<Rightarrow> (fault + Token) list" where
  "tokens_of w m = map (token_at w m) [0 ..< tok_ctr m]"

subsection \<open>The vocabulary of the claims\<close>

text \<open>
  A store is well formed when its first \<open>tok_ctr\<close> elements are pointers to allocated
  tokens: what \<^verbatim>\<open>TokenMgr_new\<close> returns and \<^verbatim>\<open>TokenMgr_add_token\<close> keeps.
\<close>

definition live :: "world \<Rightarrow> nat cell \<Rightarrow> bool" where
  "live w c = (case c of Indeterminate \<Rightarrow> False | Init p \<Rightarrow> p < length (objs w))"

definition wf_store :: "world \<Rightarrow> TokenMgr \<Rightarrow> bool" where
  "wf_store w m =
     (tok_ctr m \<le> length (toks m) \<and> list_all (live w) (take (tok_ctr m) (toks m)))"

definition new_token :: "string \<Rightarrow> string \<Rightarrow> Token" where
  "new_token ty v = \<lparr>tok_type = ty, tok_val = v, val_length = length v, tok_lineno = None\<rparr>"

text \<open>
  A scan state whose store is well formed, has a free element in \<open>toks\<close>, and for which
  \<^verbatim>\<open>malloc\<close> can return one token more.
\<close>

definition has_room :: "scan \<Rightarrow> bool" where
  "has_room s =
     (case tokmgr s of
        None \<Rightarrow> False
      | Some m \<Rightarrow> wf_store (env s) m \<and> tok_ctr m < length (toks m) \<and> avail (env s) \<noteq> 0)"

text \<open>
  \<open>emitted s s' ty v k\<close>: from \<open>s\<close> to \<open>s'\<close> the store gained exactly the token of type
  \<open>ty\<close> and value \<open>v\<close>, at its end, and the scanner moved \<open>k\<close> characters on; the error
  flag, the line counter and the output are as they were.
\<close>

definition emitted :: "scan \<Rightarrow> scan \<Rightarrow> string \<Rightarrow> string \<Rightarrow> nat \<Rightarrow> bool" where
  "emitted s s' ty v k =
     (case (tokmgr s, tokmgr s') of
        (Some m, Some m') \<Rightarrow>
          tokens_of (env s') m' = tokens_of (env s) m @ [Inr (new_token ty v)]
          \<and> bidx s' = bidx s + k \<and> error s' = error s \<and> lineno s' = lineno s
          \<and> out (env s') = out (env s)
      | _ \<Rightarrow> False)"

text \<open>
  \<open>scans_to w m input ts\<close>: \<^verbatim>\<open>build_tokens\<close> on the C string \<open>input\<close> and the store
  \<open>m\<close> returns 0, prints nothing, and leaves the store with the tokens \<open>ts\<close> (type and
  value) after those it held.
\<close>

definition scans_to :: "world \<Rightarrow> TokenMgr \<Rightarrow> string \<Rightarrow> (string \<times> string) list \<Rightarrow> bool" where
  "scans_to w m input ts =
     (case build_tokens w (Some (input @ [NUL])) (Some m) of
        Inr (r, w', Some m') \<Rightarrow>
          r = 0 \<and> tokens_of w' m' = tokens_of w m @ map (\<lambda>(ty, v). Inr (new_token ty v)) ts
          \<and> out w' = out w
      | _ \<Rightarrow> False)"

text \<open>
  \<open>raised buff s s'\<close>: from \<open>s\<close> to \<open>s'\<close> the error flag is as it was, or it is now 1
  and the turn appended nothing, kept the line counter and stopped inside the buffer.
\<close>

definition raised :: "char list \<Rightarrow> scan \<Rightarrow> scan \<Rightarrow> bool" where
  "raised buff s s' =
     (error s' = error s \<or>
      (error s' = 1 \<and> env s' = env s \<and> tokmgr s' = tokmgr s \<and> lineno s' = lineno s
       \<and> bidx s' < length buff))"

text \<open>
  \<open>unlined w w'\<close>: the tokens allocated in \<open>w\<close> are those of \<open>w'\<close>, unchanged, and
  every token \<open>w'\<close> has more was never given a line number.
\<close>

definition unlined :: "world \<Rightarrow> world \<Rightarrow> bool" where
  "unlined w w' =
     (take (length (objs w)) (objs w') = objs w
      \<and> list_all (\<lambda>t. tok_lineno t = None) (drop (length (objs w)) (objs w')))"

text \<open>
  \<open>holds m ps\<close>: the store holds the token pointers \<open>ps\<close>, in this order, and no
  pointer twice (\<^verbatim>\<open>malloc\<close> returns a new object each time).
\<close>

definition holds :: "TokenMgr \<Rightarrow> nat list \<Rightarrow> bool" where
  "holds m ps = (tok_ctr m = length ps \<and> take (length ps) (toks m) = map Init ps \<and> distinct ps)"

text \<open>\<open>calls f k\<close>: \<open>k\<close> calls of \<open>f\<close> in a row, with the pointers they return.\<close>

fun calls ::
    "(TokenMgr option \<Rightarrow> fault + (nat option \<times> TokenMgr option)) \<Rightarrow> nat \<Rightarrow> TokenMgr option
       \<Rightarrow> fault + (nat option list \<times> TokenMgr option)" where
  "calls f 0 mgr = Inr ([], mgr)"
| "calls f (Suc k) mgr =
     bind (f mgr) (\<lambda>(t, mgr'). bind (calls f k mgr') (\<lambda>(ts, mgr''). Inr (t # ts, mgr'')))"

text \<open>
  \<open>ready s\<close>: the scratch buffer is as a turn of the loop expects it, its counter at
  zero and its 100 elements in place.
\<close>

definition ready :: "scan \<Rightarrow> bool" where
  "ready s = (stctr s = 0 \<and> length (store s) = 100)"

text \<open>
  \<open>turns buff k s\<close>: the state after at most \<open>k\<close> turns of the \<^verbatim>\<open>while\<close> loop from
  \<open>s\<close>, with the loop's own test and body; \<open>turns buff k (start w m) = Inr s\<close> says that
  the scan of \<open>buff\<close> comes through \<open>s\<close>.
\<close>

fun turns :: "char list \<Rightarrow> nat \<Rightarrow> scan \<Rightarrow> fault + scan" where
  "turns buff 0 s = Inr s"
| "turns buff (Suc k) s =
     bind (rd buff (bidx s)) (\<lambda>c.
       if c \<noteq> NUL \<and> error s = 0 then bind (lex_step buff s) (\<lambda>s'. turns buff k s')
       else Inr s)"

subsection \<open>Stores that hold their tokens\<close>

lemma live_simps [simp]:
  "live w Indeterminate = False" "live w (Init p) = (p < length (objs w))"
  by (simp_all add: live_def)


lemma wf_store_at:
  assumes "wf_store w m" and "i < tok_ctr m"
  shows "\<exists>p. toks m ! i = Init p \<and> p < length (objs w)"
proof -
  from assms have "i < length (take (tok_ctr m) (toks m))"
    by (simp add: wf_store_def)
  with assms have "live w (take (tok_ctr m) (toks m) ! i)"
    unfolding wf_store_def list_all_length by blast
  with assms show ?thesis by (cases "toks m ! i") simp_all
qed

lemma add_token_ok:
  assumes wf: "wf_store w m" and room: "tok_ctr m < length (toks m)" and mem: "avail w \<noteq> 0"
  shows "\<exists>w' m'. TokenMgr_add_token w (Some m) ty v = Inr (0, w', Some m')
           \<and> tokens_of w' m' = tokens_of w m @ [Inr (new_token ty v)]
           \<and> wf_store w' m' \<and> tok_ctr m' = tok_ctr m + 1
           \<and> length (toks m') = length (toks m) \<and> curr_tok m' = curr_tok m
           \<and> avail w' = avail w - 1 \<and> out w' = out w"
proof -
  let ?p = "length (objs w)"
  let ?w = "w\<lparr>objs := objs w @ [new_token ty v], avail := avail w - 1\<rparr>"
  let ?m = "m\<lparr>toks := (toks m)[tok_ctr m := Init ?p], tok_ctr := tok_ctr m + 1\<rparr>"
  have run: "TokenMgr_add_token w (Some m) ty v = Inr (0, ?w, Some ?m)"
    using room mem by (simp add: TokenMgr_add_token_def malloc_Token_def new_token_def Let_def)
  have old: "token_at ?w ?m i = token_at w m i" if "i < tok_ctr m" for i
  proof -
    from wf_store_at [OF wf that] obtain p where "toks m ! i = Init p" "p < ?p" by blast
    with that room show ?thesis by (simp add: token_at_def toks_at_def nth_append)
  qed
  have new: "token_at ?w ?m (tok_ctr m) = Inr (new_token ty v)"
    using room by (simp add: token_at_def toks_at_def)
  have "tokens_of ?w ?m = map (token_at ?w ?m) [0 ..< tok_ctr m] @ [token_at ?w ?m (tok_ctr m)]"
    by (simp add: tokens_of_def)
  also have "map (token_at ?w ?m) [0 ..< tok_ctr m] = map (token_at w m) [0 ..< tok_ctr m]"
    by (rule map_cong) (use old in simp_all)
  finally have toks: "tokens_of ?w ?m = tokens_of w m @ [Inr (new_token ty v)]"
    using new by (simp add: tokens_of_def)
  have "list_all (live ?w) (take (Suc (tok_ctr m)) ((toks m)[tok_ctr m := Init ?p]))"
    unfolding list_all_length
  proof (intro allI impI)
    fix n assume n: "n < length (take (Suc (tok_ctr m)) ((toks m)[tok_ctr m := Init ?p]))"
    show "live ?w (take (Suc (tok_ctr m)) ((toks m)[tok_ctr m := Init ?p]) ! n)"
    proof (cases "n = tok_ctr m")
      case True
      with room show ?thesis by simp
    next
      case False
      with n room have lt: "n < tok_ctr m" by simp
      from wf_store_at [OF wf lt] obtain p where "toks m ! n = Init p" "p < ?p" by blast
      with lt False show ?thesis by simp
    qed
  qed
  with room have wf': "wf_store ?w ?m"
    by (simp add: wf_store_def)
  show ?thesis using run toks wf' by simp
qed

section \<open>The claims\<close>

subsection \<open>Keyword lookup\<close>

lemma keyword_loop_unfold:
  "keyword_loop 0 s =
     (if s = ''print'' \<or> s = ''if'' \<or> s = ''else'' then Inr 1 else Inl Null_Dereference)"
  by (simp add: keyword_loop.simps [of 0] keyword_loop.simps [of "Suc 0"]
      keyword_loop.simps [of "Suc (Suc 0)"] keyword_loop.simps [of "Suc (Suc (Suc 0))"]
      KWORDS_SIZE_def R_Keywords_def strcmp_eq_def eq_commute)

text \<open>
  C3. \<^verbatim>\<open>is_valid_keyword\<close> returns 0 for a null pointer and 1 for each of \<^verbatim>\<open>print\<close>,
  \<^verbatim>\<open>if\<close> and \<^verbatim>\<open>else\<close>. For every other string, the empty one included, the loop goes
  on to the fourth element of \<^verbatim>\<open>R_Keywords\<close>, a null pointer (the table has
  \<^verbatim>\<open>KWORDS_SIZE = 5\<close> elements and three initialisers), and hands it to \<^verbatim>\<open>strcmp\<close>:
  it does not return false there, it reads through a null pointer.
\<close>

theorem is_valid_keyword_null_read:
  "is_valid_keyword None = Inr 0
   \<and> is_valid_keyword (Some s) =
       (if s = ''print'' \<or> s = ''if'' \<or> s = ''else'' then Inr 1 else Inl Null_Dereference)
   \<and> is_valid_keyword (Some ''foo'') = Inl Null_Dereference
   \<and> is_valid_keyword (Some []) = Inl Null_Dereference"
  by (simp add: is_valid_keyword_def keyword_loop_unfold)

subsection \<open>The cursor\<close>

text \<open>
  C4. \<^verbatim>\<open>TokenMgr_current_token\<close> tests the manager for null and then dereferences
  \<open>curr_tok\<close> untested: on a store whose cursor is unset (a new store, a store after
  \<^verbatim>\<open>TokenMgr_reset_token\<close> or \<^verbatim>\<open>TokenMgr_clear_tokens\<close>) it dereferences a null
  pointer instead of returning null.
\<close>

theorem current_token_null_cursor:
  "TokenMgr_current_token (Some (TokenMgr_new cap)) = Inl Null_Dereference
   \<and> TokenMgr_current_token (TokenMgr_reset_token (Some m)) = Inl Null_Dereference
   \<and> TokenMgr_current_token (TokenMgr_clear_tokens (Some m)) = Inl Null_Dereference"
  by (simp add: TokenMgr_current_token_def TokenMgr_new_def TokenMgr_reset_token_def
      TokenMgr_clear_tokens_def deref_cursor_def)

subsection \<open>Null arguments\<close>

lemma tokens_of_out [simp]: "tokens_of (w\<lparr>out := x\<rparr>) m = tokens_of w m"
  by (simp add: tokens_of_def token_at_def cong: if_cong)

text \<open>
  C10. With a null buffer, or with a buffer and a null manager, \<^verbatim>\<open>build_tokens\<close>
  returns 1 at once: it prints its message, scans nothing, and the manager it was given
  comes back as it was, holding the tokens it held.
\<close>

theorem build_tokens_null_arguments:
  "build_tokens w None mgr = Inr (1, w\<lparr>out := out w @ [Buffer_Invalid]\<rparr>, mgr)
   \<and> build_tokens w (Some buff) None = Inr (1, w\<lparr>out := out w @ [Invalid_Token_Manager]\<rparr>, None)
   \<and> tokens_of (w\<lparr>out := out w @ [Buffer_Invalid]\<rparr>) m = tokens_of w m"
  by (simp add: build_tokens_def)

subsection \<open>Appending a token\<close>

lemma emit_ok:
  assumes "has_room s"
  shows "\<exists>s'. emit s ty v = Inr s' \<and> emitted s s' ty v 0
           \<and> stctr s' = stctr s \<and> store s' = store s"
proof -
  from assms obtain m where m: "tokmgr s = Some m" "wf_store (env s) m"
    "tok_ctr m < length (toks m)" "avail (env s) \<noteq> 0"
    by (auto simp: has_room_def split: option.splits)
  from add_token_ok [OF m(2-4), of ty v] obtain w' m' where
    "TokenMgr_add_token (env s) (Some m) ty v = Inr (0, w', Some m')"
    "tokens_of w' m' = tokens_of (env s) m @ [Inr (new_token ty v)]"
    "out w' = out (env s)"
    by blast
  with m(1) show ?thesis by (simp add: emit_def emitted_def)
qed

lemma emitted_advance:
  "emitted s s' ty v 0 \<Longrightarrow> emitted s (s'\<lparr>bidx := bidx s' + k\<rparr>) ty v k"
  by (auto simp: emitted_def split: option.splits)

lemma lex_single_ok:
  assumes "has_room s"
  shows "\<exists>s'. lex_single s ty v = Inr s' \<and> emitted s s' ty v 1"
proof -
  from emit_ok [OF assms, of ty v] obtain s1 where
    "emit s ty v = Inr s1" "emitted s s1 ty v 0" by blast
  then show ?thesis using emitted_advance [of s s1 ty v 1] by (simp add: lex_single_def)
qed

lemma lex_bang_ok:
  assumes "has_room s" and "bidx s + 1 < length buff"
  shows "\<exists>s'. lex_bang buff s = Inr s'
           \<and> (if buff ! (bidx s + 1) = EQUAL then emitted s s' ''OPERATOR'' ''NOTEQUALTO'' 2
              else emitted s s' ''OPERATOR'' ''NOT'' 1)"
proof (cases "buff ! (bidx s + 1) = EQUAL")
  case True
  from emit_ok [OF assms(1), of "''OPERATOR''" "''NOTEQUALTO''"] obtain s1 where
    "emit s ''OPERATOR'' ''NOTEQUALTO'' = Inr s1" "emitted s s1 ''OPERATOR'' ''NOTEQUALTO'' 0"
    by blast
  then show ?thesis
    using True assms(2) emitted_advance [of s s1 "''OPERATOR''" "''NOTEQUALTO''" 2]
    by (simp add: lex_bang_def rd_def)
next
  case False
  from emit_ok [OF assms(1), of "''OPERATOR''" "''NOT''"] obtain s1 where
    "emit s ''OPERATOR'' ''NOT'' = Inr s1" "emitted s s1 ''OPERATOR'' ''NOT'' 0"
    by blast
  then show ?thesis
    using False assms(2) emitted_advance [of s s1 "''OPERATOR''" "''NOT''" 1]
    by (simp add: lex_bang_def rd_def)
qed

lemma lex_lessthan_ok:
  assumes "has_room s" and "bidx s + 1 < length buff"
  shows "\<exists>s'. lex_lessthan buff s = Inr s'
           \<and> (if buff ! (bidx s + 1) = EQUAL then emitted s s' ''OPERATOR'' ''LTEQTO'' 2
              else emitted s s' ''OPERATOR'' ''LESSTHAN'' 1)"
proof (cases "buff ! (bidx s + 1) = EQUAL")
  case True
  from emit_ok [OF assms(1), of "''OPERATOR''" "''LTEQTO''"] obtain s1 where
    "emit s ''OPERATOR'' ''LTEQTO'' = Inr s1" "emitted s s1 ''OPERATOR'' ''LTEQTO'' 0"
    by blast
  then show ?thesis
    using True assms(2) emitted_advance [of s s1 "''OPERATOR''" "''LTEQTO''" 2]
    by (simp add: lex_lessthan_def rd_def)
next
  case False
  from emit_ok [OF assms(1), of "''OPERATOR''" "''LESSTHAN''"] obtain s1 where
    "emit s ''OPERATOR'' ''LESSTHAN'' = Inr s1" "emitted s s1 ''OPERATOR'' ''LESSTHAN'' 0"
    by blast
  then show ?thesis
    using False assms(2) emitted_advance [of s s1 "''OPERATOR''" "''LESSTHAN''" 1]
    by (simp add: lex_lessthan_def rd_def)
qed

lemma has_room_bidx [simp]: "has_room (s\<lparr>bidx := i\<rparr>) = has_room s"
  by (simp add: has_room_def split: option.splits)

lemma emitted_from_bidx:
  "emitted (s\<lparr>bidx := i\<rparr>) s' ty v 0 \<Longrightarrow> emitted s (s'\<lparr>bidx := bidx s + k\<rparr>) ty v k"
  by (auto simp: emitted_def split: option.splits)

lemma lex_greaterthan_ok:
  assumes "has_room s" and "bidx s + 1 < length buff"
  shows "\<exists>s'. lex_greaterthan buff s = Inr s'
           \<and> (if buff ! (bidx s + 1) = EQUAL then emitted s s' ''OPERATOR'' ''GTEQTO'' 2
              else if buff ! (bidx s + 1) = LESSTHAN then emitted s s' ''OPERATOR'' ''BETWEEN'' 2
              else emitted s s' ''OPERATOR'' ''GREATERTHAN'' 1)"
proof -
  have room: "has_room (s\<lparr>bidx := i\<rparr>)" for i using assms(1) by simp
  consider (eq) "buff ! (bidx s + 1) = EQUAL"
    | (lt) "buff ! (bidx s + 1) = LESSTHAN"
    | (other) "buff ! (bidx s + 1) \<noteq> EQUAL" "buff ! (bidx s + 1) \<noteq> LESSTHAN"
    by blast
  then show ?thesis
  proof cases
    case eq
    from emit_ok [OF room, of "bidx s + 1" "''OPERATOR''" "''GTEQTO''"] obtain s1 where
      e: "emit (s\<lparr>bidx := bidx s + 1\<rparr>) ''OPERATOR'' ''GTEQTO'' = Inr s1"
      "emitted (s\<lparr>bidx := bidx s + 1\<rparr>) s1 ''OPERATOR'' ''GTEQTO'' 0"
      by blast
    from e(2) have "bidx s1 = bidx s + 1" by (auto simp: emitted_def split: option.splits)
    with e eq assms(2) emitted_from_bidx [OF e(2), of 2] show ?thesis
      by (simp add: lex_greaterthan_def rd_def Let_def)
  next
    case lt
    from emit_ok [OF room, of "bidx s + 1" "''OPERATOR''" "''BETWEEN''"] obtain s1 where
      e: "emit (s\<lparr>bidx := bidx s + 1\<rparr>) ''OPERATOR'' ''BETWEEN'' = Inr s1"
      "emitted (s\<lparr>bidx := bidx s + 1\<rparr>) s1 ''OPERATOR'' ''BETWEEN'' 0"
      by blast
    from e(2) have "bidx s1 = bidx s + 1" by (auto simp: emitted_def split: option.splits)
    with e lt assms(2) emitted_from_bidx [OF e(2), of 2] show ?thesis
      by (simp add: lex_greaterthan_def rd_def Let_def)
  next
    case other
    from emit_ok [OF room, of "bidx s" "''OPERATOR''" "''GREATERTHAN''"] obtain s1 where
      e: "emit (s\<lparr>bidx := bidx s\<rparr>) ''OPERATOR'' ''GREATERTHAN'' = Inr s1"
      "emitted (s\<lparr>bidx := bidx s\<rparr>) s1 ''OPERATOR'' ''GREATERTHAN'' 0"
      by blast
    from e(2) have "bidx s1 = bidx s" by (auto simp: emitted_def split: option.splits)
    with e other assms(2) emitted_from_bidx [OF e(2), of 1] show ?thesis
      by (simp add: lex_greaterthan_def rd_def Let_def)
  qed
qed

lemma scan_loop_last_step:
  assumes "lex_step buff s = Inr s'" and "bidx s < length buff" and "buff ! bidx s \<noteq> NUL"
    and "error s = 0" and "bidx s' < length buff" and "buff ! bidx s' = NUL \<or> error s' \<noteq> 0"
  shows "scan_loop buff s = Inr s'"
  using assms by (auto simp: scan_loop.simps [of buff s] scan_loop.simps [of buff s'] rd_def)

lemma start_simps [simp]:
  "bidx (start w m) = 0" "stctr (start w m) = 0" "store (start w m) = replicate 100 Indeterminate"
  "error (start w m) = 0" "lineno (start w m) = 1" "env (start w m) = w"
  "tokmgr (start w m) = Some m"
  by (simp_all add: start_def)

lemma has_room_start:
  "wf_store w m \<Longrightarrow> tok_ctr m < length (toks m) \<Longrightarrow> avail w \<noteq> 0 \<Longrightarrow> has_room (start w m)"
  by (simp add: has_room_def)

lemma scans_to_one:
  assumes step: "lex_step (inp @ [NUL]) (start w m) = Inr s'"
    and em: "emitted (start w m) s' ty v k"
    and inp: "k = length inp" "inp \<noteq> []" "hd inp \<noteq> NUL"
  shows "scans_to w m inp [(ty, v)]"
proof -
  from em obtain m' where s': "tokmgr s' = Some m'"
    "tokens_of (env s') m' = tokens_of w m @ [Inr (new_token ty v)]"
    "bidx s' = length inp" "error s' = 0" "out (env s') = out w"
    using inp(1) by (auto simp: emitted_def split: option.splits)
  from inp have first: "(inp @ [NUL]) ! bidx (start w m) \<noteq> NUL"
    by (cases inp) simp_all
  have "scan_loop (inp @ [NUL]) (start w m) = Inr s'"
    by (rule scan_loop_last_step [OF step _ first]) (simp_all add: s')
  with s' show ?thesis by (simp add: scans_to_def build_tokens_def)
qed

subsection \<open>Operators of two characters\<close>

lemma lex_step_bang: "buff ! bidx s = BANG \<Longrightarrow> lex_step buff s = lex_bang buff s"
  by (simp add: lex_step_def)

lemma lex_step_lessthan: "buff ! bidx s = LESSTHAN \<Longrightarrow> lex_step buff s = lex_lessthan buff s"
  by (simp add: lex_step_def isspace_def)

lemma lex_step_greaterthan:
  "buff ! bidx s = GREATERTHAN \<Longrightarrow> lex_step buff s = lex_greaterthan buff s"
  by (simp add: lex_step_def isspace_def)

lemma scans_to_bang:
  assumes "has_room (start w m)"
  shows "scans_to w m ''!='' [(''OPERATOR'', ''NOTEQUALTO'')]"
    and "scans_to w m ''!'' [(''OPERATOR'', ''NOT'')]"
proof -
  from lex_bang_ok [OF assms, of "''!='' @ [NUL]"] obtain s' where
    "lex_step (''!='' @ [NUL]) (start w m) = Inr s'"
    "emitted (start w m) s' ''OPERATOR'' ''NOTEQUALTO'' 2"
    by (auto simp: lex_step_bang)
  then show "scans_to w m ''!='' [(''OPERATOR'', ''NOTEQUALTO'')]"
    by (rule scans_to_one) simp_all
  from lex_bang_ok [OF assms, of "''!'' @ [NUL]"] obtain s' where
    "lex_step (''!'' @ [NUL]) (start w m) = Inr s'"
    "emitted (start w m) s' ''OPERATOR'' ''NOT'' 1"
    by (auto simp: lex_step_bang)
  then show "scans_to w m ''!'' [(''OPERATOR'', ''NOT'')]"
    by (rule scans_to_one) simp_all
qed

lemma scans_to_lessthan:
  assumes "has_room (start w m)"
  shows "scans_to w m ''<='' [(''OPERATOR'', ''LTEQTO'')]"
    and "scans_to w m ''<'' [(''OPERATOR'', ''LESSTHAN'')]"
proof -
  from lex_lessthan_ok [OF assms, of "''<='' @ [NUL]"] obtain s' where
    "lex_step (''<='' @ [NUL]) (start w m) = Inr s'"
    "emitted (start w m) s' ''OPERATOR'' ''LTEQTO'' 2"
    by (auto simp: lex_step_lessthan)
  then show "scans_to w m ''<='' [(''OPERATOR'', ''LTEQTO'')]"
    by (rule scans_to_one) simp_all
  from lex_lessthan_ok [OF assms, of "''<'' @ [NUL]"] obtain s' where
    "lex_step (''<'' @ [NUL]) (start w m) = Inr s'"
    "emitted (start w m) s' ''OPERATOR'' ''LESSTHAN'' 1"
    by (auto simp: lex_step_lessthan)
  then show "scans_to w m ''<'' [(''OPERATOR'', ''LESSTHAN'')]"
    by (rule scans_to_one) simp_all
qed

lemma scans_to_greaterthan:
  assumes "has_room (start w m)"
  shows "scans_to w m ''>='' [(''OPERATOR'', ''GTEQTO'')]"
    and "scans_to w m ''><'' [(''OPERATOR'', ''BETWEEN'')]"
    and "scans_to w m ''>'' [(''OPERATOR'', ''GREATERTHAN'')]"
proof -
  from lex_greaterthan_ok [OF assms, of "''>='' @ [NUL]"] obtain s' where
    "lex_step (''>='' @ [NUL]) (start w m) = Inr s'"
    "emitted (start w m) s' ''OPERATOR'' ''GTEQTO'' 2"
    by (auto simp: lex_step_greaterthan)
  then show "scans_to w m ''>='' [(''OPERATOR'', ''GTEQTO'')]"
    by (rule scans_to_one) simp_all
  from lex_greaterthan_ok [OF assms, of "''><'' @ [NUL]"] obtain s' where
    "lex_step (''><'' @ [NUL]) (start w m) = Inr s'"
    "emitted (start w m) s' ''OPERATOR'' ''BETWEEN'' 2"
    by (auto simp: lex_step_greaterthan)
  then show "scans_to w m ''><'' [(''OPERATOR'', ''BETWEEN'')]"
    by (rule scans_to_one) simp_all
  from lex_greaterthan_ok [OF assms, of "''>'' @ [NUL]"] obtain s' where
    "lex_step (''>'' @ [NUL]) (start w m) = Inr s'"
    "emitted (start w m) s' ''OPERATOR'' ''GREATERTHAN'' 1"
    by (auto simp: lex_step_greaterthan)
  then show "scans_to w m ''>'' [(''OPERATOR'', ''GREATERTHAN'')]"
    by (rule scans_to_one) simp_all
qed

text \<open>
  C9. From any well-formed store with room for a token, scanning \<^verbatim>\<open>!=\<close>, \<^verbatim>\<open><=\<close>,
  \<^verbatim>\<open>>=\<close> and \<^verbatim>\<open>><\<close> appends exactly one OPERATOR token (NOTEQUALTO, LTEQTO, GTEQTO,
  BETWEEN), and scanning \<^verbatim>\<open>!\<close>, \<^verbatim>\<open><\<close> and \<^verbatim>\<open>>\<close> alone appends NOT, LESSTHAN and
  GREATERTHAN. At any position of any buffer, a turn of the loop on \<^verbatim>\<open>!\<close>, \<^verbatim>\<open><\<close> or
  \<^verbatim>\<open>>\<close> looks one character ahead: with the extension it appends the combined operator
  and moves two characters on, without it the single operator and one character.
\<close>

theorem two_character_operators:
  assumes "wf_store w m" and "tok_ctr m < length (toks m)" and "avail w \<noteq> 0"
  shows "scans_to w m ''!='' [(''OPERATOR'', ''NOTEQUALTO'')]
       \<and> scans_to w m ''<='' [(''OPERATOR'', ''LTEQTO'')]
       \<and> scans_to w m ''>='' [(''OPERATOR'', ''GTEQTO'')]
       \<and> scans_to w m ''><'' [(''OPERATOR'', ''BETWEEN'')]
       \<and> scans_to w m ''!'' [(''OPERATOR'', ''NOT'')]
       \<and> scans_to w m ''<'' [(''OPERATOR'', ''LESSTHAN'')]
       \<and> scans_to w m ''>'' [(''OPERATOR'', ''GREATERTHAN'')]
       \<and> (\<forall>buff s. env s = w \<and> tokmgr s = Some m \<and> bidx s + 1 < length buff \<longrightarrow>
            (buff ! bidx s = BANG \<longrightarrow>
               (\<exists>s'. lex_step buff s = Inr s'
                  \<and> (if buff ! (bidx s + 1) = EQUAL
                     then emitted s s' ''OPERATOR'' ''NOTEQUALTO'' 2
                     else emitted s s' ''OPERATOR'' ''NOT'' 1)))
          \<and> (buff ! bidx s = LESSTHAN \<longrightarrow>
               (\<exists>s'. lex_step buff s = Inr s'
                  \<and> (if buff ! (bidx s + 1) = EQUAL
                     then emitted s s' ''OPERATOR'' ''LTEQTO'' 2
                     else emitted s s' ''OPERATOR'' ''LESSTHAN'' 1)))
          \<and> (buff ! bidx s = GREATERTHAN \<longrightarrow>
               (\<exists>s'. lex_step buff s = Inr s'
                  \<and> (if buff ! (bidx s + 1) = EQUAL
                     then emitted s s' ''OPERATOR'' ''GTEQTO'' 2
                     else if buff ! (bidx s + 1) = LESSTHAN
                     then emitted s s' ''OPERATOR'' ''BETWEEN'' 2
                     else emitted s s' ''OPERATOR'' ''GREATERTHAN'' 1))))"
proof -
  have room: "has_room (start w m)"
    using assms by (rule has_room_start)
  have step: "has_room s" if "env s = w \<and> tokmgr s = Some m \<and> bidx s + 1 < length buff"
    for s and buff :: "char list"
    using assms that by (simp add: has_room_def)
  have bang: "\<exists>s'. lex_step buff s = Inr s'
                  \<and> (if buff ! (bidx s + 1) = EQUAL
                     then emitted s s' ''OPERATOR'' ''NOTEQUALTO'' 2
                     else emitted s s' ''OPERATOR'' ''NOT'' 1)"
    if "env s = w \<and> tokmgr s = Some m \<and> bidx s + 1 < length buff" "buff ! bidx s = BANG"
    for s buff
    using lex_bang_ok [OF step [OF that(1)], of buff] that by (simp add: lex_step_bang)
  have less: "\<exists>s'. lex_step buff s = Inr s'
                  \<and> (if buff ! (bidx s + 1) = EQUAL
                     then emitted s s' ''OPERATOR'' ''LTEQTO'' 2
                     else emitted s s' ''OPERATOR'' ''LESSTHAN'' 1)"
    if "env s = w \<and> tokmgr s = Some m \<and> bidx s + 1 < length buff" "buff ! bidx s = LESSTHAN"
    for s buff
    using lex_lessthan_ok [OF step [OF that(1)], of buff] that by (simp add: lex_step_lessthan)
  have greater: "\<exists>s'. lex_step buff s = Inr s'
                  \<and> (if buff ! (bidx s + 1) = EQUAL
                     then emitted s s' ''OPERATOR'' ''GTEQTO'' 2
                     else if buff ! (bidx s + 1) = LESSTHAN
                     then emitted s s' ''OPERATOR'' ''BETWEEN'' 2
                     else emitted s s' ''OPERATOR'' ''GREATERTHAN'' 1)"
    if "env s = w \<and> tokmgr s = Some m \<and> bidx s + 1 < length buff"
      "buff ! bidx s = GREATERTHAN"
    for s buff
    using lex_greaterthan_ok [OF step [OF that(1)], of buff] that
    by (simp add: lex_step_greaterthan)
  show ?thesis
    using scans_to_bang [OF room] scans_to_lessthan [OF room] scans_to_greaterthan [OF room]
      bang less greater
    by blast
qed

theorem two_character_operators_witness:
  "wf_store \<lparr>objs = [], avail = 1, out = []\<rparr> (TokenMgr_new 1)
   \<and> tok_ctr (TokenMgr_new 1) < length (toks (TokenMgr_new 1))
   \<and> scans_to \<lparr>objs = [], avail = 1, out = []\<rparr> (TokenMgr_new 1) ''!='' [(''OPERATOR'', ''NOTEQUALTO'')]
   \<and> scans_to \<lparr>objs = [], avail = 1, out = []\<rparr> (TokenMgr_new 1) ''<='' [(''OPERATOR'', ''LTEQTO'')]
   \<and> scans_to \<lparr>objs = [], avail = 1, out = []\<rparr> (TokenMgr_new 1) ''>='' [(''OPERATOR'', ''GTEQTO'')]
   \<and> scans_to \<lparr>objs = [], avail = 1, out = []\<rparr> (TokenMgr_new 1) ''><'' [(''OPERATOR'', ''BETWEEN'')]
   \<and> scans_to \<lparr>objs = [], avail = 1, out = []\<rparr> (TokenMgr_new 1) ''!'' [(''OPERATOR'', ''NOT'')]"
  using two_character_operators [of "\<lparr>objs = [], avail = 1, out = []\<rparr>" "TokenMgr_new 1"]
  by (simp add: wf_store_def TokenMgr_new_def)

subsection \<open>The accumulation loop\<close>

lemma c_str_text: "NUL \<notin> set str \<Longrightarrow> c_str (map Init str @ Init NUL # rest) = Inr str"
  by (induction str) auto

lemma accumulate_stop: "\<not> cond c \<Longrightarrow> accumulate cond buff s c = Inr (s, c)"
  by (simp add: accumulate.simps)

lemma accumulate_run:
  assumes "\<forall>c\<in>set str. cond c" and "\<not> cond d"
    and "buff = pre @ str @ d # post" and "bidx s = length pre"
    and "stctr s + length str \<le> length (store s)"
  shows "\<exists>s'. accumulate cond buff s (buff ! bidx s) = Inr (s', d)
           \<and> store s' = take (stctr s) (store s) @ map Init str
                          @ drop (stctr s + length str) (store s)
           \<and> stctr s' = stctr s + length str \<and> bidx s' = bidx s + length str
           \<and> error s' = error s \<and> lineno s' = lineno s
           \<and> env s' = env s \<and> tokmgr s' = tokmgr s"
  using assms
proof (induction str arbitrary: s pre)
  case Nil
  then show ?case by (simp add: accumulate_stop)
next
  case (Cons c cs)
  let ?s1 = "s\<lparr>store := (store s)[stctr s := Init c], stctr := stctr s + 1, bidx := bidx s + 1\<rparr>"
  have here: "buff ! bidx s = c" "cond c"
    using Cons.prems by simp_all
  have poke: "poke (store s) (stctr s) c = Inr ((store s)[stctr s := Init c])"
    using Cons.prems by (simp add: poke_def)
  have rd: "rd buff (bidx s + 1) = Inr (buff ! bidx ?s1)"
    using Cons.prems by (simp add: rd_def)
  have "\<exists>s'. accumulate cond buff ?s1 (buff ! bidx ?s1) = Inr (s', d)
           \<and> store s' = take (stctr ?s1) (store ?s1) @ map Init cs
                          @ drop (stctr ?s1 + length cs) (store ?s1)
           \<and> stctr s' = stctr ?s1 + length cs \<and> bidx s' = bidx ?s1 + length cs
           \<and> error s' = error ?s1 \<and> lineno s' = lineno ?s1
           \<and> env s' = env ?s1 \<and> tokmgr s' = tokmgr ?s1"
    using Cons.prems by (intro Cons.IH [of "pre @ [c]"]) simp_all
  then obtain s' where s': "accumulate cond buff ?s1 (buff ! bidx ?s1) = Inr (s', d)"
    "store s' = take (stctr ?s1) (store ?s1) @ map Init cs
                  @ drop (stctr ?s1 + length cs) (store ?s1)"
    "stctr s' = stctr ?s1 + length cs" "bidx s' = bidx ?s1 + length cs"
    "error s' = error ?s1" "lineno s' = lineno ?s1" "env s' = env ?s1" "tokmgr s' = tokmgr ?s1"
    by blast
  have run: "accumulate cond buff s (buff ! bidx s) = Inr (s', d)"
    using here poke rd s'(1) by (simp add: accumulate.simps [of cond buff s])
  have lt: "stctr s < length (store s)"
    using Cons.prems by simp
  have "take (Suc (stctr s)) ((store s)[stctr s := Init c]) = take (stctr s) (store s) @ [Init c]"
    using lt by (simp add: take_Suc_conv_app_nth)
  with s'(2) have "store s' = take (stctr s) (store s) @ map Init (c # cs)
                      @ drop (stctr s + length (c # cs)) (store s)"
    by simp
  with run s'(3-8) show ?case by simp
qed

lemma accumulate_overflow:
  assumes "\<forall>c\<in>set str. cond c" and "buff = pre @ str @ post" and "bidx s = length pre"
    and "post \<noteq> []" and "stctr s \<le> length (store s)"
    and "length (store s) < stctr s + length str"
  shows "accumulate cond buff s (buff ! bidx s) = Inl Out_Of_Bounds_Write"
  using assms
proof (induction str arbitrary: s pre)
  case Nil
  then show ?case by simp
next
  case (Cons c cs)
  let ?s1 = "s\<lparr>store := (store s)[stctr s := Init c], stctr := stctr s + 1, bidx := bidx s + 1\<rparr>"
  have here: "buff ! bidx s = c" "cond c"
    using Cons.prems by simp_all
  show ?case
  proof (cases "stctr s < length (store s)")
    case False
    with here show ?thesis by (simp add: accumulate.simps [of cond buff s] poke_def)
  next
    case True
    have rd: "rd buff (bidx s + 1) = Inr (buff ! bidx ?s1)"
      using Cons.prems by (cases post) (simp_all add: rd_def)
    have "accumulate cond buff ?s1 (buff ! bidx ?s1) = Inl Out_Of_Bounds_Write"
      using Cons.prems True by (intro Cons.IH [of "pre @ [c]"]) simp_all
    with here True rd show ?thesis
      by (simp add: accumulate.simps [of cond buff s] poke_def)
  qed
qed

subsection \<open>String literals\<close>

lemma lex_step_string: "buff ! bidx s = DQUOTE \<Longrightarrow> lex_step buff s = lex_string buff s"
  by (simp add: lex_step_def isspace_def)

lemma lex_string_scan:
  assumes buff: "buff = pre @ DQUOTE # str @ d # post" "bidx s = length pre"
    and str: "DQUOTE \<notin> set str" "NUL \<notin> set str" "NEWLINE \<notin> set str"
    and d: "d = DQUOTE \<or> d = NUL \<or> d = NEWLINE"
    and st: "stctr s = 0" "length str < length (store s)"
  shows "\<exists>s3. lex_string buff s =
                 (if d \<noteq> DQUOTE then Inr (s3\<lparr>error := 1\<rparr>)
                  else bind (emit_store s3 ''STRING'') (\<lambda>s4. Inr (s4\<lparr>bidx := bidx s4 + 1\<rparr>)))
           \<and> c_str (store s3) = Inr str \<and> length (store s3) = length (store s)
           \<and> stctr s3 = length str \<and> bidx s3 = bidx s + 1 + length str
           \<and> error s3 = error s \<and> lineno s3 = lineno s
           \<and> env s3 = env s \<and> tokmgr s3 = tokmgr s"
proof -
  let ?cond = "\<lambda>c. c \<noteq> DQUOTE \<and> c \<noteq> NUL \<and> c \<noteq> NEWLINE"
  let ?s1 = "s\<lparr>bidx := bidx s + 1\<rparr>"
  have rd: "rd buff (bidx s + 1) = Inr (buff ! bidx ?s1)"
    using buff by (simp add: rd_def)
  have "\<exists>s'. accumulate ?cond buff ?s1 (buff ! bidx ?s1) = Inr (s', d)
           \<and> store s' = take (stctr ?s1) (store ?s1) @ map Init str
                          @ drop (stctr ?s1 + length str) (store ?s1)
           \<and> stctr s' = stctr ?s1 + length str \<and> bidx s' = bidx ?s1 + length str
           \<and> error s' = error ?s1 \<and> lineno s' = lineno ?s1
           \<and> env s' = env ?s1 \<and> tokmgr s' = tokmgr ?s1"
    using buff str d st by (intro accumulate_run [of str _ d _ "pre @ [DQUOTE]" post]) auto
  then obtain s2 where s2: "accumulate ?cond buff ?s1 (buff ! bidx ?s1) = Inr (s2, d)"
    "store s2 = map Init str @ drop (length str) (store s)"
    "stctr s2 = length str" "bidx s2 = bidx s + 1 + length str"
    "error s2 = error s" "lineno s2 = lineno s" "env s2 = env s" "tokmgr s2 = tokmgr s"
    using st by auto
  let ?st = "map Init str @ Init NUL # drop (Suc (length str)) (store s)"
  have upd: "(store s2)[stctr s2 := Init NUL] = ?st"
    using s2(2,3) st(2) by (simp add: list_update_append Cons_nth_drop_Suc [symmetric])
  have fin: "terminate_store s2 = Inr (s2\<lparr>store := ?st\<rparr>)"
    using s2(2,3) st(2) upd by (simp add: terminate_store_def poke_def)
  have run: "lex_string buff s =
               (if d \<noteq> DQUOTE then Inr (s2\<lparr>store := ?st, error := 1\<rparr>)
                else bind (emit_store (s2\<lparr>store := ?st\<rparr>) ''STRING'')
                       (\<lambda>s4. Inr (s4\<lparr>bidx := bidx s4 + 1\<rparr>)))"
    using rd s2(1) fin by (simp add: lex_string_def)
  have "c_str ?st = Inr str"
    using str(2) by (rule c_str_text)
  with run s2 st show ?thesis
    by (intro exI [of _ "s2\<lparr>store := ?st\<rparr>"]) simp
qed

lemma lex_string_unterminated:
  assumes "buff = pre @ DQUOTE # str @ d # post" and "bidx s = length pre"
    and "DQUOTE \<notin> set str" and "NUL \<notin> set str" and "NEWLINE \<notin> set str"
    and "d = NUL \<or> d = NEWLINE"
    and "stctr s = 0" and "length str < length (store s)"
  shows "\<exists>s'. lex_step buff s = Inr s' \<and> error s' = 1 \<and> env s' = env s
           \<and> tokmgr s' = tokmgr s \<and> lineno s' = lineno s
           \<and> c_str (store s') = Inr str \<and> bidx s' = bidx s + length str + 1"
proof -
  from assms(6) have d: "d = DQUOTE \<or> d = NUL \<or> d = NEWLINE" "d \<noteq> DQUOTE" by auto
  from lex_string_scan [OF assms(1-5) d(1) assms(7,8)] d(2) obtain s3 where
    "lex_string buff s = Inr (s3\<lparr>error := 1\<rparr>)" "c_str (store s3) = Inr str"
    "bidx s3 = bidx s + 1 + length str" "lineno s3 = lineno s" "env s3 = env s"
    "tokmgr s3 = tokmgr s"
    by auto
  moreover have "buff ! bidx s = DQUOTE" using assms(1,2) by simp
  ultimately show ?thesis by (simp add: lex_step_string)
qed

lemma emit_store_ok:
  assumes "has_room s" and "c_str (store s) = Inr v"
  shows "\<exists>s'. emit_store s ty = Inr s' \<and> emitted s s' ty v 0 \<and> stctr s' = 0
           \<and> store s' = store s"
proof -
  from emit_ok [OF assms(1), of ty v] obtain s1 where
    "emit s ty v = Inr s1" "emitted s s1 ty v 0" "store s1 = store s" by blast
  with assms(2) show ?thesis
    by (auto simp: emit_store_def emitted_def split: option.splits)
qed

lemma lex_string_terminated:
  assumes "buff = pre @ DQUOTE # str @ DQUOTE # post" and "bidx s = length pre"
    and "DQUOTE \<notin> set str" and "NUL \<notin> set str" and "NEWLINE \<notin> set str"
    and "stctr s = 0" and "length str < length (store s)" and "has_room s"
  shows "\<exists>s'. lex_step buff s = Inr s' \<and> emitted s s' ''STRING'' str (length str + 2)
           \<and> stctr s' = 0 \<and> length (store s') = length (store s)"
proof -
  from lex_string_scan [OF assms(1-5) _ assms(6,7)] obtain s3 where s3:
    "lex_string buff s = bind (emit_store s3 ''STRING'') (\<lambda>s4. Inr (s4\<lparr>bidx := bidx s4 + 1\<rparr>))"
    "c_str (store s3) = Inr str" "length (store s3) = length (store s)"
    "bidx s3 = bidx s + 1 + length str" "error s3 = error s" "lineno s3 = lineno s"
    "env s3 = env s" "tokmgr s3 = tokmgr s"
    by auto
  from assms(8) s3(7,8) have "has_room s3"
    by (simp add: has_room_def split: option.splits)
  from emit_store_ok [OF this s3(2), of "''STRING''"] obtain s4 where s4:
    "emit_store s3 ''STRING'' = Inr s4" "emitted s3 s4 ''STRING'' str 0" "stctr s4 = 0"
    "store s4 = store s3"
    by blast
  have "emitted s (s4\<lparr>bidx := bidx s4 + 1\<rparr>) ''STRING'' str (length str + 2)"
    using s4(2) s3(4-8) by (auto simp: emitted_def split: option.splits)
  moreover have "buff ! bidx s = DQUOTE" using assms(1,2) by simp
  ultimately show ?thesis using s3(1,3) s4 by (simp add: lex_step_string)
qed

lemma lex_string_overflow:
  assumes buff: "buff = pre @ DQUOTE # str @ d # post" "bidx s = length pre"
    and str: "DQUOTE \<notin> set str" "NUL \<notin> set str" "NEWLINE \<notin> set str"
    and d: "d = DQUOTE \<or> d = NUL \<or> d = NEWLINE"
    and st: "stctr s = 0" "length (store s) \<le> length str"
  shows "lex_step buff s = Inl Out_Of_Bounds_Write"
proof -
  let ?cond = "\<lambda>c. c \<noteq> DQUOTE \<and> c \<noteq> NUL \<and> c \<noteq> NEWLINE"
  let ?s1 = "s\<lparr>bidx := bidx s + 1\<rparr>"
  have rd: "rd buff (bidx s + 1) = Inr (buff ! bidx ?s1)"
    using buff by (simp add: rd_def)
  have "lex_string buff s = Inl Out_Of_Bounds_Write"
  proof (cases "length (store s) = length str")
    case True
    have "\<exists>s'. accumulate ?cond buff ?s1 (buff ! bidx ?s1) = Inr (s', d)
           \<and> store s' = take (stctr ?s1) (store ?s1) @ map Init str
                          @ drop (stctr ?s1 + length str) (store ?s1)
           \<and> stctr s' = stctr ?s1 + length str \<and> bidx s' = bidx ?s1 + length str
           \<and> error s' = error ?s1 \<and> lineno s' = lineno ?s1
           \<and> env s' = env ?s1 \<and> tokmgr s' = tokmgr ?s1"
      using buff str d st True
      by (intro accumulate_run [of str _ d _ "pre @ [DQUOTE]" post]) auto
    then obtain s2 where "accumulate ?cond buff ?s1 (buff ! bidx ?s1) = Inr (s2, d)"
      "store s2 = map Init str" "stctr s2 = length str"
      using st True by auto
    with rd show ?thesis by (simp add: lex_string_def terminate_store_def poke_def)
  next
    case False
    have "accumulate ?cond buff ?s1 (buff ! bidx ?s1) = Inl Out_Of_Bounds_Write"
      using buff str st False
      by (intro accumulate_overflow [of str _ _ "pre @ [DQUOTE]" "d # post"]) auto
    with rd show ?thesis by (simp add: lex_string_def)
  qed
  moreover have "buff ! bidx s = DQUOTE" using buff by simp
  ultimately show ?thesis by (simp add: lex_step_string)
qed

lemma scan_loop_fault:
  assumes "lex_step buff s = Inl e" and "bidx s < length buff" and "buff ! bidx s \<noteq> NUL"
    and "error s = 0"
  shows "scan_loop buff s = Inl e"
  using assms by (simp add: scan_loop.simps [of buff s] rd_def)

lemma build_tokens_error:
  assumes "lex_step buff (start w m) = Inr s'" and "buff \<noteq> []" and "hd buff \<noteq> NUL"
    and "bidx s' < length buff" and "error s' = 1" and "env s' = w" and "tokmgr s' = Some m"
    and "c_str (store s') = Inr v" and "lineno s' = 1"
  shows "build_tokens w (Some buff) (Some m)
           = Inr (1, w\<lparr>out := out w @ [Invalid_Syntax v 1]\<rparr>, Some m)"
proof -
  from assms(2,3) have first: "bidx (start w m) < length buff" "buff ! bidx (start w m) \<noteq> NUL"
    by (cases buff; simp)+
  have "scan_loop buff (start w m) = Inr s'"
    using assms(1) first by (rule scan_loop_last_step) (simp_all add: assms)
  with assms show ?thesis by (simp add: build_tokens_def)
qed

lemma build_tokens_fault:
  assumes "lex_step buff (start w m) = Inl e" and "buff \<noteq> []" and "hd buff \<noteq> NUL"
  shows "build_tokens w (Some buff) (Some m) = Inl e"
proof -
  from assms(2,3) have first: "bidx (start w m) < length buff" "buff ! bidx (start w m) \<noteq> NUL"
    by (cases buff; simp)+
  have "scan_loop buff (start w m) = Inl e"
    using assms(1) first by (rule scan_loop_fault) simp
  then show ?thesis by (simp add: build_tokens_def)
qed

lemma unterminated_string_scan:
  assumes "DQUOTE \<notin> set str" and "NUL \<notin> set str" and "NEWLINE \<notin> set str"
    and "length str < 100" and "d = NUL \<or> d = NEWLINE"
  shows "build_tokens w (Some (DQUOTE # str @ d # rest)) (Some m)
           = Inr (1, w\<lparr>out := out w @ [Invalid_Syntax str 1]\<rparr>, Some m)"
proof -
  have "\<exists>s'. lex_step (DQUOTE # str @ d # rest) (start w m) = Inr s' \<and> error s' = 1
           \<and> env s' = env (start w m) \<and> tokmgr s' = tokmgr (start w m)
           \<and> lineno s' = lineno (start w m) \<and> c_str (store s') = Inr str
           \<and> bidx s' = bidx (start w m) + length str + 1"
    using assms by (intro lex_string_unterminated [of _ "[]" str d rest]) simp_all
  then obtain s' where "lex_step (DQUOTE # str @ d # rest) (start w m) = Inr s'"
    "error s' = 1" "env s' = w" "tokmgr s' = Some m" "lineno s' = 1"
    "c_str (store s') = Inr str" "bidx s' = length str + 1"
    by auto
  then show ?thesis by (intro build_tokens_error) simp_all
qed

lemma terminated_string_scan:
  assumes "DQUOTE \<notin> set str" and "NUL \<notin> set str" and "NEWLINE \<notin> set str"
    and "length str < 100" and "has_room (start w m)"
  shows "scans_to w m (DQUOTE # str @ [DQUOTE]) [(''STRING'', str)]"
proof -
  have "\<exists>s'. lex_step ((DQUOTE # str @ [DQUOTE]) @ [NUL]) (start w m) = Inr s'
           \<and> emitted (start w m) s' ''STRING'' str (length str + 2)
           \<and> stctr s' = 0 \<and> length (store s') = length (store (start w m))"
    using assms by (intro lex_string_terminated [of _ "[]" str "[NUL]"]) simp_all
  then obtain s' where "lex_step ((DQUOTE # str @ [DQUOTE]) @ [NUL]) (start w m) = Inr s'"
    "emitted (start w m) s' ''STRING'' str (length str + 2)"
    by blast
  then show ?thesis by (rule scans_to_one) simp_all
qed

text \<open>
  Between the turns of a scan the scratch buffer is ready: every branch that fills it
  either resets its counter after the token or raises the error.
\<close>

lemma ready_start: "ready (start w m)"
  by (simp add: ready_def)

lemma accumulate_length:
  "accumulate cond buff s c = Inr (s', c') \<Longrightarrow> length (store s') = length (store s)"
proof (induction cond buff s c rule: accumulate.induct)
  case (1 cond buff s c)
  show ?case
  proof (cases "cond c")
    case True
    with "1.prems" obtain st c1 where p: "poke (store s) (stctr s) c = Inr st"
      and r: "rd buff (bidx s + 1) = Inr c1"
      and k: "accumulate cond buff (s\<lparr>store := st, stctr := stctr s + 1, bidx := bidx s + 1\<rparr>) c1
                = Inr (s', c')"
      by (subst (asm) accumulate.simps) (auto simp: bind_eq_Inr)
    from p have "length st = length (store s)" by (auto simp: poke_eq_Inr)
    with "1.IH" [OF True p r k] show ?thesis by simp
  next
    case False
    with "1.prems" show ?thesis by (subst (asm) accumulate.simps) auto
  qed
qed

lemma accumulate_keeps:
  "accumulate cond buff s c = Inr (s', c') \<Longrightarrow>
     error s' = error s \<and> length (store s') = length (store s)"
  by (simp add: accumulate_frame accumulate_length)

lemma terminate_store_keeps:
  "terminate_store s = Inr s' \<Longrightarrow> error s' = error s \<and> length (store s') = length (store s)"
  by (auto simp: terminate_store_def bind_eq_Inr poke_eq_Inr)

lemma emit_store_resets:
  "emit_store s ty = Inr s' \<Longrightarrow>
     stctr s' = 0 \<and> store s' = store s \<and> error s' = error s"
  by (auto simp: emit_store_def bind_eq_Inr dest!: emit_frame)

lemma lex_step_ready:
  "lex_step buff s = Inr s' \<Longrightarrow> ready s \<Longrightarrow> error s' = 0 \<Longrightarrow> ready s'"
  unfolding lex_step_def Let_def lex_comment_def lex_bang_def lex_lessthan_def
    lex_greaterthan_def lex_equal_def lex_single_def lex_string_def lex_var_def
    lex_integer_def lex_group_def lex_word_def lex_unknown_def ready_def
  by (auto simp: bind_eq_Inr split: if_splits
      dest!: accumulate_keeps terminate_store_keeps emit_frame emit_store_resets)

lemma turns_stopped: "turns buff k s = Inr s' \<Longrightarrow> error s \<noteq> 0 \<Longrightarrow> s' = s"
  by (cases k) (auto simp: bind_eq_Inr)

lemma turns_ready:
  "turns buff k s = Inr s' \<Longrightarrow> ready s \<Longrightarrow> error s' = 0 \<Longrightarrow> ready s'"
proof (induction k arbitrary: s)
  case 0
  then show ?case by simp
next
  case (Suc k)
  from Suc.prems(1) obtain c where c: "rd buff (bidx s) = Inr c"
    by (auto simp: bind_eq_Inr)
  show ?case
  proof (cases "c \<noteq> NUL \<and> error s = 0")
    case False
    with Suc.prems c show ?thesis by auto
  next
    case True
    with Suc.prems(1) c obtain s1 where step: "lex_step buff s = Inr s1"
      and rest: "turns buff k s1 = Inr s'"
      by (auto simp: bind_eq_Inr)
    have "error s1 = 0"
    proof (rule ccontr)
      assume "error s1 \<noteq> 0"
      with rest have "s' = s1" by (rule turns_stopped)
      with \<open>error s1 \<noteq> 0\<close> Suc.prems(3) show False by simp
    qed
    with step Suc.prems(2) have "ready s1" by (rule lex_step_ready)
    with rest show ?thesis using Suc.prems(3) by (rule Suc.IH)
  qed
qed

lemma scan_loop_turns: "turns buff k s = Inr s' \<Longrightarrow> scan_loop buff s = scan_loop buff s'"
proof (induction k arbitrary: s)
  case 0
  then show ?case by simp
next
  case (Suc k)
  from Suc.prems obtain c where c: "rd buff (bidx s) = Inr c"
    by (auto simp: bind_eq_Inr)
  show ?case
  proof (cases "c \<noteq> NUL \<and> error s = 0")
    case False
    with Suc.prems c show ?thesis by auto
  next
    case True
    with Suc.prems c obtain s1 where step: "lex_step buff s = Inr s1"
      and rest: "turns buff k s1 = Inr s'"
      by (auto simp: bind_eq_Inr)
    from c True step have "scan_loop buff s = scan_loop buff s1"
      by (simp add: scan_loop.simps [of buff s])
    with Suc.IH [OF rest] show ?thesis by simp
  qed
qed

lemma reached_ready:
  "turns buff k (start w m) = Inr s \<Longrightarrow> error s = 0 \<Longrightarrow> stctr s = 0 \<and> length (store s) = 100"
  using turns_ready [of buff k "start w m" s] by (simp add: ready_start) (simp add: ready_def)

lemma reached_literal:
  assumes str: "DQUOTE \<notin> set str" "NUL \<notin> set str" "NEWLINE \<notin> set str"
    and at: "turns buff k (start w m) = Inr s" "error s = 0"
      "buff = pre @ DQUOTE # str @ DQUOTE # post" "bidx s = length pre"
    and room: "has_room s"
  shows "if length str < 100
         then \<exists>s'. lex_step buff s = Inr s' \<and> emitted s s' ''STRING'' str (length str + 2)
         else lex_step buff s = Inl Out_Of_Bounds_Write"
proof -
  from reached_ready [OF at(1,2)] have st: "stctr s = 0" "length (store s) = 100" by simp_all
  show ?thesis
  proof (cases "length str < 100")
    case True
    with st have "length str < length (store s)" by simp
    from lex_string_terminated [OF at(3,4) str st(1) this room] True show ?thesis by auto
  next
    case False
    with st have "length (store s) \<le> length str" by simp
    from lex_string_overflow [OF at(3,4) str _ st(1) this] False show ?thesis by simp
  qed
qed

lemma reached_unterminated:
  assumes str: "DQUOTE \<notin> set str" "NUL \<notin> set str" "NEWLINE \<notin> set str"
    and at: "turns buff k (start w m) = Inr s" "error s = 0"
      "buff = pre @ DQUOTE # str @ d # post" "bidx s = length pre"
    and d: "d = NUL \<or> d = NEWLINE"
  shows "if length str < 100
         then build_tokens w (Some buff) (Some m)
                = Inr (1, (env s)\<lparr>out := out (env s) @ [Invalid_Syntax str (lineno s)]\<rparr>, tokmgr s)
              \<and> (\<exists>s'. lex_step buff s = Inr s' \<and> scan_loop buff s = Inr s' \<and> error s' = 1
                    \<and> env s' = env s \<and> tokmgr s' = tokmgr s
                    \<and> bidx s' = bidx s + length str + 1)
         else lex_step buff s = Inl Out_Of_Bounds_Write"
proof -
  from reached_ready [OF at(1,2)] have st: "stctr s = 0" "length (store s) = 100" by simp_all
  show ?thesis
  proof (cases "length str < 100")
    case True
    with st have "length str < length (store s)" by simp
    from lex_string_unterminated [OF at(3,4) str d st(1) this] obtain s' where
      s': "lex_step buff s = Inr s'" "error s' = 1" "env s' = env s" "tokmgr s' = tokmgr s"
      "lineno s' = lineno s" "c_str (store s') = Inr str" "bidx s' = bidx s + length str + 1"
      by blast
    have here: "bidx s < length buff" "buff ! bidx s \<noteq> NUL"
      using at(3,4) by simp_all
    have there: "bidx s' < length buff"
      using at(3,4) s'(7) by simp
    have stop: "scan_loop buff s = Inr s'"
      using s'(1) here at(2) there by (rule scan_loop_last_step) (simp add: s'(2))
    with scan_loop_turns [OF at(1)] have "scan_loop buff (start w m) = Inr s'" by simp
    with s' have "build_tokens w (Some buff) (Some m)
                = Inr (1, (env s)\<lparr>out := out (env s) @ [Invalid_Syntax str (lineno s)]\<rparr>, tokmgr s)"
      by (simp add: build_tokens_def)
    with True s' stop show ?thesis by auto
  next
    case False
    with st have len: "length (store s) \<le> length str" by simp
    from d have "d = DQUOTE \<or> d = NUL \<or> d = NEWLINE" by blast
    from lex_string_overflow [OF at(3,4) str this st(1) len] False show ?thesis by simp
  qed
qed

lemma literal_alone:
  assumes "DQUOTE \<notin> set str" and "NUL \<notin> set str" and "NEWLINE \<notin> set str"
  shows "build_tokens w (Some (DQUOTE # str @ [NUL])) (Some m)
           = (if length str < 100
              then Inr (1, w\<lparr>out := out w @ [Invalid_Syntax str 1]\<rparr>, Some m)
              else Inl Out_Of_Bounds_Write)"
    and "build_tokens w (Some (DQUOTE # str @ NEWLINE # rest)) (Some m)
           = (if length str < 100
              then Inr (1, w\<lparr>out := out w @ [Invalid_Syntax str 1]\<rparr>, Some m)
              else Inl Out_Of_Bounds_Write)"
    and "has_room (start w m) \<Longrightarrow>
           if length str < 100
           then scans_to w m (DQUOTE # str @ [DQUOTE]) [(''STRING'', str)]
           else build_tokens w (Some (DQUOTE # str @ [DQUOTE, NUL])) (Some m)
                  = Inl Out_Of_Bounds_Write"
proof -
  have over: "build_tokens w (Some (DQUOTE # str @ d # rest)) (Some m) = Inl Out_Of_Bounds_Write"
    if "\<not> length str < 100" "d = DQUOTE \<or> d = NUL \<or> d = NEWLINE" for d rest
  proof -
    have "lex_step (DQUOTE # str @ d # rest) (start w m) = Inl Out_Of_Bounds_Write"
      using assms that by (intro lex_string_overflow [of _ "[]" str d rest]) simp_all
    then show ?thesis by (rule build_tokens_fault) simp_all
  qed
  show "build_tokens w (Some (DQUOTE # str @ [NUL])) (Some m)
           = (if length str < 100
              then Inr (1, w\<lparr>out := out w @ [Invalid_Syntax str 1]\<rparr>, Some m)
              else Inl Out_Of_Bounds_Write)"
    using assms over [of NUL "[]"] unterminated_string_scan [of str NUL w "[]" m] by simp
  show "build_tokens w (Some (DQUOTE # str @ NEWLINE # rest)) (Some m)
           = (if length str < 100
              then Inr (1, w\<lparr>out := out w @ [Invalid_Syntax str 1]\<rparr>, Some m)
              else Inl Out_Of_Bounds_Write)"
    using assms over [of NEWLINE rest] unterminated_string_scan [of str NEWLINE w rest m] by simp
  show "if length str < 100
           then scans_to w m (DQUOTE # str @ [DQUOTE]) [(''STRING'', str)]
           else build_tokens w (Some (DQUOTE # str @ [DQUOTE, NUL])) (Some m)
                  = Inl Out_Of_Bounds_Write"
    if "has_room (start w m)"
    using assms that over [of DQUOTE "[NUL]"] terminated_string_scan [of str w m] by simp
qed

text \<open>
  C8. Let \<open>str\<close> be a text without a quote, a terminator or a newline. Wherever the scan
  of a buffer comes to an opening quote followed by \<open>str\<close> and a closing quote, with room
  in the store, the turn appends exactly one STRING token whose value is \<open>str\<close> and moves
  past the closing quote, if \<open>str\<close> has fewer than 100 characters; where the terminator
  or a newline follows \<open>str\<close> instead, the turn raises the error and is the last, nothing
  is appended, and \<^verbatim>\<open>build_tokens\<close> returns 1 and reports \<open>str\<close> with the line of
  the literal (line 1 for the literal alone). With 100 characters or more the turn does
  neither: it writes past the end of the scratch buffer (the defect of C2), so the claim
  fails for those literals.
\<close>

theorem string_literal:
  assumes "DQUOTE \<notin> set str" and "NUL \<notin> set str" and "NEWLINE \<notin> set str"
  shows "(\<forall>buff w m k s pre post.
            turns buff k (start w m) = Inr s \<and> error s = 0 \<and> has_room s
            \<and> buff = pre @ DQUOTE # str @ DQUOTE # post \<and> bidx s = length pre \<longrightarrow>
            (if length str < 100
             then \<exists>s'. lex_step buff s = Inr s' \<and> emitted s s' ''STRING'' str (length str + 2)
             else lex_step buff s = Inl Out_Of_Bounds_Write))
       \<and> (\<forall>buff w m k s pre post d.
            turns buff k (start w m) = Inr s \<and> error s = 0
            \<and> buff = pre @ DQUOTE # str @ d # post \<and> (d = NUL \<or> d = NEWLINE)
            \<and> bidx s = length pre \<longrightarrow>
            (if length str < 100
             then build_tokens w (Some buff) (Some m)
                    = Inr (1, (env s)\<lparr>out := out (env s) @ [Invalid_Syntax str (lineno s)]\<rparr>,
                           tokmgr s)
                  \<and> (\<exists>s'. lex_step buff s = Inr s' \<and> scan_loop buff s = Inr s' \<and> error s' = 1
                        \<and> env s' = env s \<and> tokmgr s' = tokmgr s
                        \<and> bidx s' = bidx s + length str + 1)
             else lex_step buff s = Inl Out_Of_Bounds_Write))
       \<and> (\<forall>w m. wf_store w m \<and> tok_ctr m < length (toks m) \<and> avail w \<noteq> 0 \<longrightarrow>
            (if length str < 100
             then scans_to w m (DQUOTE # str @ [DQUOTE]) [(''STRING'', str)]
             else build_tokens w (Some (DQUOTE # str @ [DQUOTE, NUL])) (Some m)
                    = Inl Out_Of_Bounds_Write))
       \<and> (\<forall>w m. build_tokens w (Some (DQUOTE # str @ [NUL])) (Some m)
                   = (if length str < 100
                      then Inr (1, w\<lparr>out := out w @ [Invalid_Syntax str 1]\<rparr>, Some m)
                      else Inl Out_Of_Bounds_Write))
       \<and> (\<forall>w m rest. build_tokens w (Some (DQUOTE # str @ NEWLINE # rest)) (Some m)
                   = (if length str < 100
                      then Inr (1, w\<lparr>out := out w @ [Invalid_Syntax str 1]\<rparr>, Some m)
                      else Inl Out_Of_Bounds_Write))"
proof (intro conjI allI impI)
  fix buff w m k pre post and s :: scan
  assume "turns buff k (start w m) = Inr s \<and> error s = 0 \<and> has_room s
            \<and> buff = pre @ DQUOTE # str @ DQUOTE # post \<and> bidx s = length pre"
  then show "if length str < 100
             then \<exists>s'. lex_step buff s = Inr s' \<and> emitted s s' ''STRING'' str (length str + 2)
             else lex_step buff s = Inl Out_Of_Bounds_Write"
    using reached_literal [OF assms, of buff k w m s pre post] by blast
next
  fix buff w m k pre post d and s :: scan
  assume "turns buff k (start w m) = Inr s \<and> error s = 0
            \<and> buff = pre @ DQUOTE # str @ d # post \<and> (d = NUL \<or> d = NEWLINE)
            \<and> bidx s = length pre"
  then show "if length str < 100
             then build_tokens w (Some buff) (Some m)
                    = Inr (1, (env s)\<lparr>out := out (env s) @ [Invalid_Syntax str (lineno s)]\<rparr>,
                           tokmgr s)
                  \<and> (\<exists>s'. lex_step buff s = Inr s' \<and> scan_loop buff s = Inr s' \<and> error s' = 1
                        \<and> env s' = env s \<and> tokmgr s' = tokmgr s
                        \<and> bidx s' = bidx s + length str + 1)
             else lex_step buff s = Inl Out_Of_Bounds_Write"
    using reached_unterminated [OF assms, of buff k w m s pre d post] by blast
next
  fix w m
  assume "wf_store w m \<and> tok_ctr m < length (toks m) \<and> avail w \<noteq> 0"
  then have "has_room (start w m)" by (simp add: has_room_start)
  then show "if length str < 100
             then scans_to w m (DQUOTE # str @ [DQUOTE]) [(''STRING'', str)]
             else build_tokens w (Some (DQUOTE # str @ [DQUOTE, NUL])) (Some m)
                    = Inl Out_Of_Bounds_Write"
    by (rule literal_alone(3) [OF assms])
next
  fix w m
  show "build_tokens w (Some (DQUOTE # str @ [NUL])) (Some m)
                   = (if length str < 100
                      then Inr (1, w\<lparr>out := out w @ [Invalid_Syntax str 1]\<rparr>, Some m)
                      else Inl Out_Of_Bounds_Write)"
    by (rule literal_alone(1) [OF assms])
next
  fix w m rest
  show "build_tokens w (Some (DQUOTE # str @ NEWLINE # rest)) (Some m)
                   = (if length str < 100
                      then Inr (1, w\<lparr>out := out w @ [Invalid_Syntax str 1]\<rparr>, Some m)
                      else Inl Out_Of_Bounds_Write)"
    by (rule literal_alone(2) [OF assms])
qed

theorem string_literal_witness:
  "build_tokens \<lparr>objs = [], avail = 2, out = []\<rparr>
       (Some ([DQUOTE, CHR ''a'', DQUOTE, DQUOTE, CHR ''b'', DQUOTE, NUL])) (Some (TokenMgr_new 2))
     = Inr (0, \<lparr>objs = [\<lparr>tok_type = ''STRING'', tok_val = ''a'', val_length = 1, tok_lineno = None\<rparr>,
                          \<lparr>tok_type = ''STRING'', tok_val = ''b'', val_length = 1, tok_lineno = None\<rparr>],
                  avail = 0, out = []\<rparr>,
            Some \<lparr>toks = [Init 0, Init 1], tok_ctr = 2, curr_tok = None\<rparr>)
   \<and> (\<exists>s. turns [DQUOTE, CHR ''a'', DQUOTE, DQUOTE, CHR ''b'', DQUOTE, NUL] 1
              (start \<lparr>objs = [], avail = 2, out = []\<rparr> (TokenMgr_new 2)) = Inr s
          \<and> error s = 0 \<and> has_room s \<and> bidx s = 3
          \<and> (\<exists>s'. lex_step [DQUOTE, CHR ''a'', DQUOTE, DQUOTE, CHR ''b'', DQUOTE, NUL] s = Inr s'
                 \<and> emitted s s' ''STRING'' ''b'' 3))
   \<and> scans_to \<lparr>objs = [], avail = 1, out = []\<rparr> (TokenMgr_new 1) (DQUOTE # ''abc'' @ [DQUOTE])
       [(''STRING'', ''abc'')]
   \<and> build_tokens \<lparr>objs = [], avail = 1, out = []\<rparr> (Some (DQUOTE # ''abc'' @ [NUL]))
         (Some (TokenMgr_new 1))
       = Inr (1, \<lparr>objs = [], avail = 1, out = [Invalid_Syntax ''abc'' 1]\<rparr>, Some (TokenMgr_new 1))
   \<and> build_tokens \<lparr>objs = [], avail = 1, out = []\<rparr>
         (Some (DQUOTE # replicate 100 (CHR ''x'') @ [DQUOTE, NUL])) (Some (TokenMgr_new 1))
       = Inl Out_Of_Bounds_Write"
proof -
  let ?buff = "[DQUOTE, CHR ''a'', DQUOTE, DQUOTE, CHR ''b'', DQUOTE, NUL]"
  let ?w = "\<lparr>objs = [], avail = 2, out = []\<rparr>"
  let ?w1 = "\<lparr>objs = [], avail = 1, out = []\<rparr>"
  let ?s = "\<lparr>bidx = 3, stctr = 0,
             store = Init (CHR ''a'') # Init NUL # replicate 98 Indeterminate,
             error = 0, lineno = 1,
             env = \<lparr>objs = [\<lparr>tok_type = ''STRING'', tok_val = ''a'', val_length = 1,
                               tok_lineno = None\<rparr>], avail = 1, out = []\<rparr>,
             tokmgr = Some \<lparr>toks = [Init 0, Indeterminate], tok_ctr = 1, curr_tok = None\<rparr>\<rparr>"
  have whole: "build_tokens ?w (Some ?buff) (Some (TokenMgr_new 2))
     = Inr (0, \<lparr>objs = [\<lparr>tok_type = ''STRING'', tok_val = ''a'', val_length = 1, tok_lineno = None\<rparr>,
                          \<lparr>tok_type = ''STRING'', tok_val = ''b'', val_length = 1, tok_lineno = None\<rparr>],
                  avail = 0, out = []\<rparr>,
            Some \<lparr>toks = [Init 0, Init 1], tok_ctr = 2, curr_tok = None\<rparr>)"
    by code_simp
  have reach: "turns ?buff 1 (start ?w (TokenMgr_new 2)) = Inr ?s"
    by code_simp
  have room: "has_room ?s"
    by (simp add: has_room_def wf_store_def)
  have b: "DQUOTE \<notin> set ''b''" "NUL \<notin> set ''b''" "NEWLINE \<notin> set ''b''"
    by simp_all
  have at: "turns ?buff 1 (start ?w (TokenMgr_new 2)) = Inr ?s \<and> error ?s = 0 \<and> has_room ?s
      \<and> ?buff = [DQUOTE, CHR ''a'', DQUOTE] @ DQUOTE # ''b'' @ DQUOTE # [NUL]
      \<and> bidx ?s = length [DQUOTE, CHR ''a'', DQUOTE]"
    using reach room by simp
  from string_literal [OF b, THEN conjunct1, rule_format, OF at]
  have "\<exists>s'. lex_step ?buff ?s = Inr s' \<and> emitted ?s s' ''STRING'' ''b'' 3"
    by (simp add: numeral_3_eq_3)
  with reach room have second: "\<exists>s. turns ?buff 1 (start ?w (TokenMgr_new 2)) = Inr s
          \<and> error s = 0 \<and> has_room s \<and> bidx s = 3
          \<and> (\<exists>s'. lex_step ?buff s = Inr s' \<and> emitted s s' ''STRING'' ''b'' 3)"
    by (intro exI [of _ ?s]) simp
  have abc: "DQUOTE \<notin> set ''abc''" "NUL \<notin> set ''abc''" "NEWLINE \<notin> set ''abc''"
    by simp_all
  have fresh: "wf_store ?w1 (TokenMgr_new 1)
      \<and> tok_ctr (TokenMgr_new 1) < length (toks (TokenMgr_new 1)) \<and> avail ?w1 \<noteq> 0"
    by (simp add: wf_store_def TokenMgr_new_def)
  from string_literal [OF abc, THEN conjunct2, THEN conjunct2, THEN conjunct1, rule_format,
      OF fresh]
  have one: "scans_to ?w1 (TokenMgr_new 1) (DQUOTE # ''abc'' @ [DQUOTE]) [(''STRING'', ''abc'')]"
    by simp
  from string_literal [OF abc, THEN conjunct2, THEN conjunct2, THEN conjunct2, THEN conjunct1,
      rule_format, of ?w1 "TokenMgr_new 1"]
  have open_end: "build_tokens ?w1 (Some (DQUOTE # ''abc'' @ [NUL])) (Some (TokenMgr_new 1))
       = Inr (1, \<lparr>objs = [], avail = 1, out = [Invalid_Syntax ''abc'' 1]\<rparr>, Some (TokenMgr_new 1))"
    by simp
  have x: "DQUOTE \<notin> set (replicate 100 (CHR ''x''))" "NUL \<notin> set (replicate 100 (CHR ''x''))"
    "NEWLINE \<notin> set (replicate 100 (CHR ''x''))"
    by simp_all
  from string_literal [OF x, THEN conjunct2, THEN conjunct2, THEN conjunct1, rule_format,
      OF fresh]
  have over: "build_tokens ?w1 (Some (DQUOTE # replicate 100 (CHR ''x'') @ [DQUOTE, NUL]))
         (Some (TokenMgr_new 1)) = Inl Out_Of_Bounds_Write"
    by simp
  from whole second one open_end over show ?thesis by (intro conjI)
qed


text \<open>
  C2. The scratch buffer has 100 elements and no write to it is checked: a string literal
  of 100 characters or more is written past its end (the terminator of a text of 100
  characters goes to \<open>store[100]\<close>), where the claim has the scanner report an error.
\<close>

theorem overlong_string_overflows:
  assumes "DQUOTE \<notin> set str" and "NUL \<notin> set str" and "NEWLINE \<notin> set str"
    and "100 \<le> length str"
  shows "build_tokens w (Some (DQUOTE # str @ DQUOTE # rest)) (Some m) = Inl Out_Of_Bounds_Write"
proof -
  have "lex_step (DQUOTE # str @ DQUOTE # rest) (start w m) = Inl Out_Of_Bounds_Write"
    using assms by (intro lex_string_overflow [of _ "[]" str DQUOTE rest]) simp_all
  then show ?thesis by (rule build_tokens_fault) simp_all
qed

theorem overlong_string_overflows_witness:
  "build_tokens \<lparr>objs = [], avail = 1, out = []\<rparr>
     (Some (DQUOTE # replicate 100 (CHR ''a'') @ [DQUOTE, NUL])) (Some (TokenMgr_new 1))
   = Inl Out_Of_Bounds_Write"
  using overlong_string_overflows [of "replicate 100 (CHR ''a'')"]
  by simp

subsection \<open>Bare words and unrecognised characters\<close>

lemma lex_step_unknown_qmark:
  "lex_step [CHR ''?'', NUL] (start w m) = Inl Out_Of_Bounds_Read"
  by (simp add: lex_step_def lex_unknown_def isspace_def isdigit_def isalpha_def poke_def rd_def
      accumulate.simps [of _ _ _ NUL])

lemma unknown_reads_past_terminator:
  "build_tokens w (Some [CHR ''?'', NUL]) (Some m) = Inl Out_Of_Bounds_Read"
  by (rule build_tokens_fault) (simp_all add: lex_step_unknown_qmark)

lemma accumulate_terminate:
  assumes "\<forall>c\<in>set str. cond c" and "\<not> cond d"
    and "buff = pre @ str @ d # post" and "bidx s = length pre"
    and "stctr s = 0" and "length str < length (store s)" and "NUL \<notin> set str"
  shows "\<exists>s2 s3. accumulate cond buff s (buff ! bidx s) = Inr (s2, d)
           \<and> terminate_store s2 = Inr s3
           \<and> c_str (store s3) = Inr str \<and> length (store s3) = length (store s)
           \<and> stctr s3 = length str \<and> bidx s3 = bidx s + length str
           \<and> error s3 = error s \<and> lineno s3 = lineno s
           \<and> env s3 = env s \<and> tokmgr s3 = tokmgr s"
proof -
  from accumulate_run [OF assms(1-4)] assms(5,6) obtain s2 where
    s2: "accumulate cond buff s (buff ! bidx s) = Inr (s2, d)"
    "store s2 = map Init str @ drop (length str) (store s)"
    "stctr s2 = length str" "bidx s2 = bidx s + length str"
    "error s2 = error s" "lineno s2 = lineno s" "env s2 = env s" "tokmgr s2 = tokmgr s"
    by auto
  let ?st = "map Init str @ Init NUL # drop (Suc (length str)) (store s)"
  have upd: "(store s2)[stctr s2 := Init NUL] = ?st"
    using s2(2,3) assms(6) by (simp add: list_update_append Cons_nth_drop_Suc [symmetric])
  have fin: "terminate_store s2 = Inr (s2\<lparr>store := ?st\<rparr>)"
    using s2(2,3) assms(6) upd by (simp add: terminate_store_def poke_def)
  have "c_str ?st = Inr str"
    using assms(7) by (rule c_str_text)
  with s2 fin assms(6) show ?thesis
    by (intro exI [of _ s2] exI [of _ "s2\<lparr>store := ?st\<rparr>"]) simp
qed

lemma identifier_not_NUL: "is_valid_identifier c \<Longrightarrow> c \<noteq> NUL"
  by (auto simp: is_valid_identifier_def isalpha_def isdigit_def)

lemma lex_step_word:
  "isalpha (buff ! bidx s) \<Longrightarrow> lex_step buff s = lex_word buff s"
  by (auto simp: lex_step_def isalpha_def isspace_def isdigit_def Let_def)

lemma lex_word_unknown:
  assumes "buff = pre @ str @ d # post" and "bidx s = length pre"
    and "str \<noteq> []" and "isalpha (hd str)"
    and "\<forall>c\<in>set str. is_valid_identifier c" and "\<not> is_valid_identifier d"
    and "stctr s = 0" and "length str < length (store s)"
    and "str \<noteq> ''print''" and "str \<noteq> ''if''" and "str \<noteq> ''else''"
  shows "lex_step buff s = Inl Null_Dereference"
proof -
  have "NUL \<notin> set str"
    using assms(5) identifier_not_NUL by blast
  from accumulate_terminate [OF assms(5,6,1,2,7,8) this] obtain s2 s3 where
    "accumulate is_valid_identifier buff s (buff ! bidx s) = Inr (s2, d)"
    "terminate_store s2 = Inr s3" "c_str (store s3) = Inr str"
    by blast
  moreover have "buff ! bidx s = hd str"
    using assms(1-3) by (cases str) (simp_all add: nth_append)
  ultimately show ?thesis
    using assms(4,9-11)
    by (simp add: lex_step_word lex_word_def is_valid_keyword_def keyword_loop_unfold)
qed

lemma unknown_word_null_read:
  assumes "str \<noteq> []" and "isalpha (hd str)" and "\<forall>c\<in>set str. is_valid_identifier c"
    and "\<not> is_valid_identifier d" and "length str < 100"
    and "str \<noteq> ''print''" and "str \<noteq> ''if''" and "str \<noteq> ''else''"
  shows "build_tokens w (Some (str @ d # rest)) (Some m) = Inl Null_Dereference"
proof -
  have "lex_step (str @ d # rest) (start w m) = Inl Null_Dereference"
    using assms by (intro lex_word_unknown [of _ "[]" str d rest]) simp_all
  moreover have "hd (str @ d # rest) \<noteq> NUL"
    using assms(1,2) by (cases str) (auto simp: isalpha_def)
  ultimately show ?thesis by (intro build_tokens_fault) simp_all
qed

lemma bare_word_foo: "build_tokens w (Some (''foo'' @ [NUL])) (Some m) = Inl Null_Dereference"
  by (rule unknown_word_null_read)
    (simp_all add: is_valid_identifier_def isalpha_def isdigit_def)

subsection \<open>The error flag ends the scan\<close>

lemma accumulate_inside:
  "accumulate cond buff s c = Inr (s', c') \<Longrightarrow> bidx s < length buff \<Longrightarrow> bidx s' < length buff"
proof (induction cond buff s c rule: accumulate.induct)
  case (1 cond buff s c)
  show ?case
  proof (cases "cond c")
    case True
    with "1.prems" obtain st c1 where p: "poke (store s) (stctr s) c = Inr st"
      and r: "rd buff (bidx s + 1) = Inr c1"
      and k: "accumulate cond buff (s\<lparr>store := st, stctr := stctr s + 1, bidx := bidx s + 1\<rparr>) c1
                = Inr (s', c')"
      by (subst (asm) accumulate.simps) (auto simp: bind_eq_Inr)
    from r have "bidx s + 1 < length buff" by (simp add: rd_eq_Inr)
    with "1.IH" [OF True p r k] show ?thesis by simp
  next
    case False
    with "1.prems" show ?thesis by (subst (asm) accumulate.simps) auto
  qed
qed

lemma emit_store_error: "emit_store s ty = Inr s' \<Longrightarrow> error s' = error s"
  by (auto simp: emit_store_def bind_eq_Inr dest!: emit_frame)

lemma raised_same: "error s' = error s \<Longrightarrow> raised buff s s'"
  by (simp add: raised_def)

lemma lex_single_raised: "lex_single s ty v = Inr s' \<Longrightarrow> raised buff s s'"
  by (auto simp: lex_single_def raised_def bind_eq_Inr dest!: emit_frame)

lemma lex_comment_raised: "lex_comment buff s = Inr s' \<Longrightarrow> raised buff s s'"
  by (auto simp: lex_comment_def raised_def bind_eq_Inr)

lemma lex_bang_raised: "lex_bang buff s = Inr s' \<Longrightarrow> raised buff s s'"
  by (auto simp: lex_bang_def raised_def bind_eq_Inr dest!: emit_frame split: if_splits)

lemma lex_lessthan_raised: "lex_lessthan buff s = Inr s' \<Longrightarrow> raised buff s s'"
  by (auto simp: lex_lessthan_def raised_def bind_eq_Inr dest!: emit_frame split: if_splits)

lemma lex_equal_raised: "lex_equal buff s = Inr s' \<Longrightarrow> raised buff s s'"
  by (auto simp: lex_equal_def raised_def bind_eq_Inr dest!: emit_frame split: if_splits)

lemma lex_greaterthan_raised: "lex_greaterthan buff s = Inr s' \<Longrightarrow> raised buff s s'"
  by (auto simp: lex_greaterthan_def raised_def Let_def bind_eq_Inr dest!: emit_frame
      split: if_splits)

lemma lex_var_raised: "lex_var buff s = Inr s' \<Longrightarrow> raised buff s s'"
  by (auto simp: lex_var_def raised_def bind_eq_Inr
      dest!: emit_store_error terminate_store_frame accumulate_frame)

lemma lex_integer_raised: "lex_integer buff s = Inr s' \<Longrightarrow> raised buff s s'"
  by (auto simp: lex_integer_def raised_def bind_eq_Inr
      dest!: emit_store_error terminate_store_frame accumulate_frame)

lemma lex_string_raised: "lex_string buff s = Inr s' \<Longrightarrow> raised buff s s'"
proof -
  assume "lex_string buff s = Inr s'"
  then obtain c1 s2 c2 s3 where r: "rd buff (bidx s + 1) = Inr c1"
    and a: "accumulate (\<lambda>c. c \<noteq> DQUOTE \<and> c \<noteq> NUL \<and> c \<noteq> NEWLINE) buff
              (s\<lparr>bidx := bidx s + 1\<rparr>) c1 = Inr (s2, c2)"
    and t: "terminate_store s2 = Inr s3"
    and k: "(if c2 \<noteq> DQUOTE then Inr (s3\<lparr>error := 1\<rparr>)
             else bind (emit_store s3 ''STRING'') (\<lambda>s4. Inr (s4\<lparr>bidx := bidx s4 + 1\<rparr>))) = Inr s'"
    by (auto simp: lex_string_def bind_eq_Inr)
  from r have "bidx (s\<lparr>bidx := bidx s + 1\<rparr>) < length buff" by (simp add: rd_eq_Inr)
  from accumulate_inside [OF a this] accumulate_frame [OF a] terminate_store_frame [OF t] k
  show ?thesis
    by (auto simp: raised_def bind_eq_Inr split: if_splits dest!: emit_store_error)
qed

lemma lex_group_raised: "lex_group buff s = Inr s' \<Longrightarrow> raised buff s s'"
proof -
  assume run: "lex_group buff s = Inr s'"
  then obtain c1 where r: "rd buff (bidx s + 1) = Inr c1"
    by (auto simp: lex_group_def bind_eq_Inr)
  then have inside: "bidx (s\<lparr>bidx := bidx s + 1\<rparr>) < length buff" by (simp add: rd_eq_Inr)
  show ?thesis
  proof (cases "is_valid_identifier c1")
    case False
    with run r inside show ?thesis
      by (auto simp: lex_group_def raised_def Let_def bind_eq_Inr poke_eq_Inr
          dest!: terminate_store_frame)
  next
    case True
    with run r obtain s2 c2 s3 where
      a: "accumulate is_valid_identifier buff (s\<lparr>bidx := bidx s + 1\<rparr>) c1 = Inr (s2, c2)"
      and t: "terminate_store s2 = Inr s3"
      and k: "(if c2 \<noteq> RBRACE then Inr (s3\<lparr>error := 1\<rparr>)
               else bind (emit_store s3 ''GROUP'') (\<lambda>s4. Inr (s4\<lparr>bidx := bidx s4 + 1\<rparr>))) = Inr s'"
      by (auto simp: lex_group_def Let_def bind_eq_Inr)
    from accumulate_inside [OF a inside] accumulate_frame [OF a] terminate_store_frame [OF t] k
    show ?thesis
      by (auto simp: raised_def bind_eq_Inr split: if_splits dest!: emit_store_error)
  qed
qed

lemma lex_word_raised:
  "lex_word buff s = Inr s' \<Longrightarrow> bidx s < length buff \<Longrightarrow> raised buff s s'"
proof -
  assume "lex_word buff s = Inr s'" and inside: "bidx s < length buff"
  then obtain s2 c2 s3 k where
    a: "accumulate is_valid_identifier buff s (buff ! bidx s) = Inr (s2, c2)"
    and t: "terminate_store s2 = Inr s3"
    and k: "(if k \<noteq> (0::int) then emit_store s3 ''KEYWORD''
             else Inr (s3\<lparr>error := 1, stctr := 0\<rparr>)) = Inr s'"
    by (auto simp: lex_word_def bind_eq_Inr)
  from accumulate_inside [OF a inside] accumulate_frame [OF a] terminate_store_frame [OF t] k
  show ?thesis
    by (auto simp: raised_def split: if_splits dest!: emit_store_error)
qed

lemma lex_unknown_raised: "lex_unknown buff s = Inr s' \<Longrightarrow> raised buff s s'"
proof -
  assume "lex_unknown buff s = Inr s'"
  then obtain st c1 s2 c2 s3 where r: "rd buff (bidx s + 1) = Inr c1"
    and a: "accumulate
             (\<lambda>c. c \<noteq> COMMENT \<and> c \<noteq> LBRACE \<and> c \<noteq> RBRACE \<and> c \<noteq> DQUOTE
                  \<and> (c \<noteq> VAR \<and> c \<noteq> NEWLINE) \<and> c \<noteq> EQUAL)
             buff (s\<lparr>store := st, stctr := stctr s + 1, bidx := bidx s + 1\<rparr>) c1 = Inr (s2, c2)"
    and t: "terminate_store s2 = Inr s3" and k: "s' = s3\<lparr>error := 1\<rparr>"
    by (auto simp: lex_unknown_def bind_eq_Inr)
  from r have "bidx (s\<lparr>store := st, stctr := stctr s + 1, bidx := bidx s + 1\<rparr>) < length buff"
    by (simp add: rd_eq_Inr)
  from accumulate_inside [OF a this] accumulate_frame [OF a] terminate_store_frame [OF t] k
  show ?thesis
    by (auto simp: raised_def)
qed

lemma lex_step_raised:
  "lex_step buff s = Inr s' \<Longrightarrow> bidx s < length buff \<Longrightarrow> raised buff s s'"
  unfolding lex_step_def Let_def
  by (auto split: if_splits
      dest: lex_comment_raised lex_single_raised lex_bang_raised lex_lessthan_raised
        lex_equal_raised lex_greaterthan_raised lex_string_raised lex_var_raised
        lex_integer_raised lex_group_raised lex_word_raised lex_unknown_raised
      intro: raised_same)


lemma error_ends_scan:
  assumes "lex_step buff s = Inr s'" and "bidx s < length buff" and "error s = 0"
    and "error s' \<noteq> 0"
  shows "scan_loop buff s' = Inr s' \<and> error s' = 1 \<and> env s' = env s \<and> tokmgr s' = tokmgr s"
proof -
  from lex_step_raised [OF assms(1,2)] assms(3,4)
  have "error s' = 1" "env s' = env s" "tokmgr s' = tokmgr s" "bidx s' < length buff"
    by (auto simp: raised_def)
  then show ?thesis by (simp add: scan_loop.simps [of buff s'] rd_def)
qed

lemma scan_loop_error:
  "scan_loop buff s = Inr s' \<Longrightarrow> error s = 0 \<Longrightarrow> error s' \<noteq> 0 \<Longrightarrow>
     \<exists>s1. error s1 = 0 \<and> lex_step buff s1 = Inr s' \<and> error s' = 1
        \<and> env s' = env s1 \<and> tokmgr s' = tokmgr s1"
proof (induction buff s rule: scan_loop.induct)
  case (1 buff s)
  from "1.prems"(1) obtain c where c: "rd buff (bidx s) = Inr c"
    by (subst (asm) scan_loop.simps) (auto simp: bind_eq_Inr)
  show ?case
  proof (cases "c \<noteq> NUL \<and> error s = 0")
    case False
    with "1.prems" c show ?thesis by (subst (asm) scan_loop.simps) auto
  next
    case True
    with "1.prems"(1) c obtain s2 where step: "lex_step buff s = Inr s2"
      and rest: "scan_loop buff s2 = Inr s'"
      by (subst (asm) scan_loop.simps) (auto simp: bind_eq_Inr)
    show ?thesis
    proof (cases "error s2 = 0")
      case True
      from "1.IH" [OF c \<open>c \<noteq> NUL \<and> error s = 0\<close> step rest True "1.prems"(3)]
      show ?thesis .
    next
      case False
      from c have "bidx s < length buff" by (simp add: rd_eq_Inr)
      from error_ends_scan [OF step this "1.prems"(2) False] rest
      have "s' = s2" "error s2 = 1" "env s2 = env s" "tokmgr s2 = tokmgr s" by simp_all
      with step "1.prems"(2) show ?thesis by blast
    qed
  qed
qed

text \<open>
  C7. The loop test \<open>buff[bidx] != '\0' && !error\<close> ends the scan at the first error
  that is raised (\<open>scan_loop_error\<close>: the state returned is the one the raising turn
  left, and that turn appended nothing). But two of the four malformed constructs do not
  always get as far as raising it. The last branch collects the unrecognised text up to
  one of seven delimiters, and the terminator is none of them: on \<^verbatim>\<open>?\<close> at the end of
  the buffer it copies the terminator and reads on past the end. A bare word that is no
  keyword is handed to \<^verbatim>\<open>is_valid_keyword\<close>, which reads through a null pointer (C3),
  so that branch never raises the flag at all.
\<close>

theorem unrecognised_input_faults:
  "build_tokens w (Some [CHR ''?'', NUL]) (Some m) = Inl Out_Of_Bounds_Read
   \<and> build_tokens w (Some (''foo'' @ [NUL])) (Some m) = Inl Null_Dereference"
  using unknown_reads_past_terminator bare_word_foo by blast

subsection \<open>Line numbers\<close>

lemma unlined_refl [simp]: "unlined w w"
  by (simp add: unlined_def)

lemma unlined_out [simp]: "unlined w (w'\<lparr>out := x\<rparr>) = unlined w w'"
  by (simp add: unlined_def)

lemma unlined_trans: "unlined w w' \<Longrightarrow> unlined w' w'' \<Longrightarrow> unlined w w''"
proof -
  assume a: "unlined w w'" and b: "unlined w' w''"
  from a obtain xs where xs: "objs w' = objs w @ xs" "list_all (\<lambda>t. tok_lineno t = None) xs"
    unfolding unlined_def by (metis append_take_drop_id)
  from b obtain ys where ys: "objs w'' = objs w' @ ys" "list_all (\<lambda>t. tok_lineno t = None) ys"
    unfolding unlined_def by (metis append_take_drop_id)
  from xs ys show ?thesis by (simp add: unlined_def)
qed

lemma add_token_unlined:
  "TokenMgr_add_token w mgr ty v = Inr (r, w', mgr') \<Longrightarrow> unlined w w'"
  by (auto simp: TokenMgr_add_token_def malloc_Token_def unlined_def Let_def
      split: option.splits if_splits)

lemma emit_unlined: "emit s ty v = Inr s' \<Longrightarrow> unlined (env s) (env s')"
  by (auto simp: emit_def bind_eq_Inr dest: add_token_unlined)

lemma emit_store_unlined: "emit_store s ty = Inr s' \<Longrightarrow> unlined (env s) (env s')"
  by (auto simp: emit_store_def bind_eq_Inr dest: emit_unlined)

lemma lex_step_unlined: "lex_step buff s = Inr s' \<Longrightarrow> unlined (env s) (env s')"
  unfolding lex_step_def Let_def lex_comment_def lex_bang_def lex_lessthan_def
    lex_greaterthan_def lex_equal_def lex_single_def lex_string_def lex_var_def
    lex_integer_def lex_group_def lex_word_def lex_unknown_def
  by (auto simp: bind_eq_Inr split: if_splits
      dest!: accumulate_frame terminate_store_frame dest: emit_unlined emit_store_unlined)

lemma scan_loop_unlined: "scan_loop buff s = Inr s' \<Longrightarrow> unlined (env s) (env s')"
proof (induction buff s rule: scan_loop.induct)
  case (1 buff s)
  from "1.prems" obtain c where c: "rd buff (bidx s) = Inr c"
    by (subst (asm) scan_loop.simps) (auto simp: bind_eq_Inr)
  show ?case
  proof (cases "c \<noteq> NUL \<and> error s = 0")
    case False
    with "1.prems" c show ?thesis by (subst (asm) scan_loop.simps) auto
  next
    case True
    with "1.prems" c obtain s2 where step: "lex_step buff s = Inr s2"
      and rest: "scan_loop buff s2 = Inr s'"
      by (subst (asm) scan_loop.simps) (auto simp: bind_eq_Inr)
    from lex_step_unlined [OF step] "1.IH" [OF c True step rest] show ?thesis
      by (rule unlined_trans)
  qed
qed

lemma build_tokens_unlined:
  "build_tokens w buff mgr = Inr (r, w', mgr') \<Longrightarrow> unlined w w'"
  by (auto simp: build_tokens_def bind_eq_Inr split: option.splits if_splits
      dest!: scan_loop_unlined)

text \<open>The line counter moves at a newline of the main loop, by one, and nowhere else.\<close>

lemma lex_step_lineno:
  "lex_step buff s = Inr s' \<Longrightarrow>
     lineno s' = (if buff ! bidx s = NEWLINE then lineno s + 1 else lineno s)"
  unfolding lex_step_def Let_def lex_comment_def lex_bang_def lex_lessthan_def
    lex_greaterthan_def lex_equal_def lex_single_def lex_string_def lex_var_def
    lex_integer_def lex_group_def lex_word_def lex_unknown_def
  by (auto simp: bind_eq_Inr split: if_splits
      dest!: accumulate_frame terminate_store_frame emit_frame emit_store_frame)

text \<open>
  C1. \<^verbatim>\<open>TokenMgr_add_token\<close> has no line parameter and assigns type, value and length
  only, so no token that \<^verbatim>\<open>build_tokens\<close> allocates carries a line number, whatever
  the input: the line counter goes to the error message alone. The \<^verbatim>\<open>+\<close> on the
  second line of a buffer yields a token without one.
\<close>

theorem tokens_carry_no_line:
  "build_tokens w buff mgr = Inr (r, w', mgr') \<Longrightarrow> unlined w w'"
  by (rule build_tokens_unlined)

theorem tokens_carry_no_line_witness:
  "build_tokens \<lparr>objs = [], avail = 1, out = []\<rparr> (Some [NEWLINE, PLUS, NUL])
       (Some (TokenMgr_new 1))
     = Inr (0, \<lparr>objs = [\<lparr>tok_type = ''OPERATOR'', tok_val = ''PLUS'', val_length = 4,
                           tok_lineno = None\<rparr>], avail = 0, out = []\<rparr>,
            Some \<lparr>toks = [Init 0], tok_ctr = 1, curr_tok = None\<rparr>)
   \<and> unlined \<lparr>objs = [], avail = 1, out = []\<rparr>
        \<lparr>objs = [\<lparr>tok_type = ''OPERATOR'', tok_val = ''PLUS'', val_length = 4,
                           tok_lineno = None\<rparr>], avail = 0, out = []\<rparr>"
proof -
  have run: "build_tokens \<lparr>objs = [], avail = 1, out = []\<rparr> (Some [NEWLINE, PLUS, NUL])
       (Some (TokenMgr_new 1))
     = Inr (0, \<lparr>objs = [\<lparr>tok_type = ''OPERATOR'', tok_val = ''PLUS'', val_length = 4,
                           tok_lineno = None\<rparr>], avail = 0, out = []\<rparr>,
            Some \<lparr>toks = [Init 0], tok_ctr = 1, curr_tok = None\<rparr>)"
    by code_simp
  from run tokens_carry_no_line [OF run] show ?thesis by (rule conjI)
qed

subsection \<open>Appending to a full store\<close>

text \<open>
  C6. \<^verbatim>\<open>TokenMgr_add_token\<close> neither tests \<open>tok_ctr\<close> against the length of \<open>toks\<close> nor
  grows the array, and it uses the result of \<^verbatim>\<open>malloc\<close> untested: on a store whose
  array is full it writes \<open>toks[tok_ctr]\<close> past the end (or, when \<^verbatim>\<open>malloc\<close> fails,
  copies through a null pointer). Scanning \<^verbatim>\<open>++\<close> into a store of one element does so
  at the second token.
\<close>

theorem add_token_past_the_end:
  "TokenMgr_add_token w (Some (m\<lparr>tok_ctr := length (toks m)\<rparr>)) ty v
     = Inl (if avail w = 0 then Null_Dereference else Out_Of_Bounds_Write)
   \<and> build_tokens \<lparr>objs = [], avail = 5, out = []\<rparr> (Some [PLUS, PLUS, NUL])
       (Some (TokenMgr_new 1)) = Inl Out_Of_Bounds_Write"
proof
  show "TokenMgr_add_token w (Some (m\<lparr>tok_ctr := length (toks m)\<rparr>)) ty v
     = Inl (if avail w = 0 then Null_Dereference else Out_Of_Bounds_Write)"
    by (simp add: TokenMgr_add_token_def malloc_Token_def Let_def)
  show "build_tokens \<lparr>objs = [], avail = 5, out = []\<rparr> (Some [PLUS, PLUS, NUL])
       (Some (TokenMgr_new 1)) = Inl Out_Of_Bounds_Write"
    by code_simp
qed

subsection \<open>Traversal\<close>

lemma holds_at:
  assumes "holds m ps" and "i < length ps"
  shows "i < length (toks m)" and "toks m ! i = Init (ps ! i)"
proof -
  from assms have len: "length ps \<le> length (toks m)"
    unfolding holds_def by (metis length_map length_take min.cobounded2 min_def nat_le_linear)
  with assms(2) show "i < length (toks m)" by simp
  from assms have "take (length ps) (toks m) ! i = map Init ps ! i"
    by (simp add: holds_def)
  with assms(2) show "toks m ! i = Init (ps ! i)" by simp
qed

lemma holds_cursor [simp]: "holds (m\<lparr>curr_tok := c\<rparr>) ps = holds m ps"
  by (simp add: holds_def)

lemma next_token_first:
  assumes "holds m ps" and "ps \<noteq> []" and "curr_tok m = None"
  shows "TokenMgr_next_token (Some m) = Inr (Some (ps ! 0), Some (m\<lparr>curr_tok := Some 0\<rparr>))"
  using assms holds_at [OF assms(1), of 0]
  by (simp add: TokenMgr_next_token_def deref_cursor_def)

lemma next_token_step:
  assumes "holds m ps" and "curr_tok m = Some i" and "i + 1 < length ps"
  shows "TokenMgr_next_token (Some m)
           = Inr (Some (ps ! (i + 1)), Some (m\<lparr>curr_tok := Some (i + 1)\<rparr>))"
proof -
  from assms(3) have final: "length ps - 1 < length ps" and here: "i < length ps"
    by simp_all
  from assms(3) have some: "ps \<noteq> []"
    by (cases ps) simp_all
  from assms(1) have d: "distinct ps" by (simp add: holds_def)
  from nth_eq_iff_index_eq [OF d here final] assms(3) have "ps ! i \<noteq> ps ! (length ps - 1)"
    by simp
  moreover from assms(1) have "tok_ctr m = length ps" by (simp add: holds_def)
  ultimately show ?thesis
    using assms(2,3) some holds_at [OF assms(1), of i] holds_at [OF assms(1), of "i + 1"]
      holds_at [OF assms(1) final]
    by (simp add: TokenMgr_next_token_def deref_cursor_def last_index_def toks_at_def)
qed

lemma next_token_last:
  assumes "holds m ps" and "ps \<noteq> []" and "curr_tok m = Some (length ps - 1)"
  shows "TokenMgr_next_token (Some m) = Inr (None, Some m)"
proof -
  from assms(1) have "tok_ctr m = length ps" by (simp add: holds_def)
  then show ?thesis
    using assms(2,3) holds_at [OF assms(1), of "length ps - 1"]
    by (simp add: TokenMgr_next_token_def deref_cursor_def last_index_def toks_at_def)
qed

lemma prev_token_first:
  assumes "holds m ps" and "ps \<noteq> []" and "curr_tok m = None"
  shows "TokenMgr_prev_token (Some m)
           = Inr (Some (ps ! (length ps - 1)), Some (m\<lparr>curr_tok := Some (length ps - 1)\<rparr>))"
proof -
  from assms(1) have "tok_ctr m = length ps" by (simp add: holds_def)
  then show ?thesis
    using assms(2,3) holds_at [OF assms(1), of "length ps - 1"]
    by (simp add: TokenMgr_prev_token_def deref_cursor_def last_index_def)
qed

lemma prev_token_step:
  assumes "holds m ps" and "curr_tok m = Some (i + 1)" and "i + 1 < length ps"
  shows "TokenMgr_prev_token (Some m) = Inr (Some (ps ! i), Some (m\<lparr>curr_tok := Some i\<rparr>))"
proof -
  from assms(1) have d: "distinct ps" by (simp add: holds_def)
  from assms(3) have some: "0 < length ps" by (cases ps) simp_all
  from nth_eq_iff_index_eq [OF d assms(3) some] have "ps ! (i + 1) \<noteq> ps ! 0"
    by simp
  moreover from assms(3) have "i < length ps" by simp
  ultimately show ?thesis
    using assms(2,3) holds_at [OF assms(1) \<open>i < length ps\<close>] holds_at [OF assms(1) assms(3)]
      holds_at [OF assms(1) some]
    by (simp add: TokenMgr_prev_token_def deref_cursor_def toks_at_def)
qed

lemma prev_token_last:
  assumes "holds m ps" and "ps \<noteq> []" and "curr_tok m = Some 0"
  shows "TokenMgr_prev_token (Some m) = Inr (None, Some m)"
  using assms holds_at [OF assms(1), of 0]
  by (simp add: TokenMgr_prev_token_def deref_cursor_def toks_at_def)

lemma calls_next:
  assumes "holds m ps" and "curr_tok m = Some i" and "i + k < length ps"
  shows "calls TokenMgr_next_token k (Some m)
           = Inr (map Some (take k (drop (i + 1) ps)), Some (m\<lparr>curr_tok := Some (i + k)\<rparr>))"
  using assms
proof (induction k arbitrary: m i)
  case 0
  then show ?case by simp
next
  case (Suc k)
  let ?m = "m\<lparr>curr_tok := Some (i + 1)\<rparr>"
  have one: "TokenMgr_next_token (Some m) = Inr (Some (ps ! (i + 1)), Some ?m)"
    using Suc.prems by (intro next_token_step) simp_all
  have "calls TokenMgr_next_token k (Some ?m)
          = Inr (map Some (take k (drop (i + 1 + 1) ps)), Some (?m\<lparr>curr_tok := Some (i + 1 + k)\<rparr>))"
    using Suc.prems by (intro Suc.IH) simp_all
  moreover have "take (Suc k) (drop (i + 1) ps) = ps ! (i + 1) # take k (drop (i + 1 + 1) ps)"
    using Suc.prems by (simp add: Cons_nth_drop_Suc [symmetric])
  ultimately show ?case using one by simp
qed

lemma calls_prev:
  assumes "holds m ps" and "curr_tok m = Some (i + k)" and "i + k < length ps"
  shows "calls TokenMgr_prev_token k (Some m)
           = Inr (map Some (rev (take k (drop i ps))), Some (m\<lparr>curr_tok := Some i\<rparr>))"
  using assms
proof (induction k arbitrary: m)
  case 0
  then show ?case by simp
next
  case (Suc k)
  let ?m = "m\<lparr>curr_tok := Some (i + k)\<rparr>"
  have one: "TokenMgr_prev_token (Some m) = Inr (Some (ps ! (i + k)), Some ?m)"
    using Suc.prems by (intro prev_token_step) simp_all
  have "calls TokenMgr_prev_token k (Some ?m)
          = Inr (map Some (rev (take k (drop i ps))), Some (?m\<lparr>curr_tok := Some i\<rparr>))"
    using Suc.prems by (intro Suc.IH) simp_all
  moreover have "take (Suc k) (drop i ps) = take k (drop i ps) @ [ps ! (i + k)]"
    using Suc.prems by (simp add: take_Suc_conv_app_nth)
  ultimately show ?case using one by simp
qed

lemma traversal_nonempty:
  assumes "holds m ps" and "ps \<noteq> []" and "curr_tok m = None"
  shows "calls TokenMgr_next_token (length ps) (Some m)
           = Inr (map Some ps, Some (m\<lparr>curr_tok := Some (length ps - 1)\<rparr>))"
    and "TokenMgr_next_token (Some (m\<lparr>curr_tok := Some (length ps - 1)\<rparr>))
           = Inr (None, Some (m\<lparr>curr_tok := Some (length ps - 1)\<rparr>))"
    and "calls TokenMgr_prev_token (length ps) (Some m)
           = Inr (map Some (rev ps), Some (m\<lparr>curr_tok := Some 0\<rparr>))"
    and "TokenMgr_prev_token (Some (m\<lparr>curr_tok := Some 0\<rparr>))
           = Inr (None, Some (m\<lparr>curr_tok := Some 0\<rparr>))"
proof -
  from assms(2) obtain n where n: "length ps = Suc n" by (cases ps) simp_all
  have first: "TokenMgr_next_token (Some m) = Inr (Some (ps ! 0), Some (m\<lparr>curr_tok := Some 0\<rparr>))"
    using assms by (rule next_token_first)
  have "calls TokenMgr_next_token n (Some (m\<lparr>curr_tok := Some 0\<rparr>))
          = Inr (map Some (take n (drop (0 + 1) ps)),
                 Some (m\<lparr>curr_tok := Some 0\<rparr>\<lparr>curr_tok := Some (0 + n)\<rparr>))"
    using assms n by (intro calls_next) simp_all
  moreover have "ps = ps ! 0 # take n (drop 1 ps)"
    using n by (cases ps) simp_all
  ultimately show "calls TokenMgr_next_token (length ps) (Some m)
           = Inr (map Some ps, Some (m\<lparr>curr_tok := Some (length ps - 1)\<rparr>))"
    using first n by (simp del: take_drop) (metis list.simps(9))
  show "TokenMgr_next_token (Some (m\<lparr>curr_tok := Some (length ps - 1)\<rparr>))
           = Inr (None, Some (m\<lparr>curr_tok := Some (length ps - 1)\<rparr>))"
    using assms by (intro next_token_last) simp_all
  have last: "TokenMgr_prev_token (Some m)
           = Inr (Some (ps ! n), Some (m\<lparr>curr_tok := Some n\<rparr>))"
    using prev_token_first [OF assms] n by simp
  have "calls TokenMgr_prev_token n (Some (m\<lparr>curr_tok := Some n\<rparr>))
          = Inr (map Some (rev (take n (drop 0 ps))),
                 Some (m\<lparr>curr_tok := Some n\<rparr>\<lparr>curr_tok := Some 0\<rparr>))"
    using assms n by (intro calls_prev) simp_all
  with last have backward: "calls TokenMgr_prev_token (Suc n) (Some m)
          = Inr (Some (ps ! n) # map Some (rev (take n ps)), Some (m\<lparr>curr_tok := Some 0\<rparr>))"
    by simp
  have r: "map Some (rev ps) = Some (ps ! n) # map Some (rev (take n ps))"
  proof -
    have a: "take (Suc n) ps = take n ps @ [ps ! n]"
      by (rule take_Suc_conv_app_nth) (simp add: n)
    from n have b: "take (Suc n) ps = ps" by simp
    from b [symmetric] a have "ps = take n ps @ [ps ! n]" by (rule trans)
    then have "rev ps = rev (take n ps @ [ps ! n])" by (rule arg_cong)
    then have "rev ps = ps ! n # rev (take n ps)" by simp
    then have "map Some (rev ps) = map Some (ps ! n # rev (take n ps))" by (rule arg_cong)
    then show ?thesis by (simp only: list.map)
  qed
  show "calls TokenMgr_prev_token (length ps) (Some m)
           = Inr (map Some (rev ps), Some (m\<lparr>curr_tok := Some 0\<rparr>))"
    unfolding n r by (rule backward)
  show "TokenMgr_prev_token (Some (m\<lparr>curr_tok := Some 0\<rparr>))
           = Inr (None, Some (m\<lparr>curr_tok := Some 0\<rparr>))"
    using assms by (intro prev_token_last) simp_all
qed

lemma holds_new: "holds (TokenMgr_new cap) []"
  by (simp add: holds_def TokenMgr_new_def)

lemma add_token_holds:
  assumes "holds m ps" and "wf_store w m" and "tok_ctr m < length (toks m)" and "avail w \<noteq> 0"
  shows "\<exists>w' m'. TokenMgr_add_token w (Some m) ty v = Inr (0, w', Some m')
           \<and> holds m' (ps @ [length (objs w)]) \<and> wf_store w' m'"
proof -
  let ?p = "length (objs w)"
  let ?w = "w\<lparr>objs := objs w @ [new_token ty v], avail := avail w - 1\<rparr>"
  let ?m = "m\<lparr>toks := (toks m)[tok_ctr m := Init ?p], tok_ctr := tok_ctr m + 1\<rparr>"
  have run: "TokenMgr_add_token w (Some m) ty v = Inr (0, ?w, Some ?m)"
    using assms(3,4)
    by (simp add: TokenMgr_add_token_def malloc_Token_def new_token_def Let_def)
  from add_token_ok [OF assms(2-4), of ty v] run have wf: "wf_store ?w ?m"
    by simp
  from assms(1) have n: "tok_ctr m = length ps" and t: "take (length ps) (toks m) = map Init ps"
    and d: "distinct ps"
    by (simp_all add: holds_def)
  have fresh: "?p \<notin> set ps"
  proof
    assume "?p \<in> set ps"
    then obtain i where i: "i < length ps" "ps ! i = ?p" by (auto simp: in_set_conv_nth)
    from holds_at(2) [OF assms(1) i(1)] wf_store_at [OF assms(2), of i] i n
    show False by simp
  qed
  have "take (Suc (length ps)) ((toks m)[length ps := Init ?p]) = map Init ps @ [Init ?p]"
    using assms(3) n t by (simp add: take_Suc_conv_app_nth)
  with n d fresh have "holds ?m (ps @ [?p])"
    by (simp add: holds_def)
  with run wf show ?thesis by blast
qed

text \<open>
  C5. On a store without tokens and with the cursor unset, \<^verbatim>\<open>TokenMgr_next_token\<close>
  points the cursor at \<open>toks[0]\<close> and returns what it finds there: an element never
  written on a new store, the pointer to a cleared token after
  \<^verbatim>\<open>TokenMgr_clear_tokens\<close>. \<^verbatim>\<open>TokenMgr_prev_token\<close> points it at
  \<open>toks[tok_ctr - 1]\<close>, outside the array. Neither returns null, as
  \<^verbatim>\<open>get_first_token\<close> and \<^verbatim>\<open>get_last_token\<close> do there. On a store that holds at
  least one token the traversal is as the claim has it (\<open>traversal_nonempty\<close>).
\<close>

theorem traversal_of_empty_store:
  "TokenMgr_next_token (Some (TokenMgr_new cap))
     = Inl (if cap = 0 then Out_Of_Bounds_Read else Uninitialised_Read)
   \<and> TokenMgr_prev_token (Some (TokenMgr_new cap)) = Inl Out_Of_Bounds_Read
   \<and> TokenMgr_next_token
       (TokenMgr_clear_tokens (Some \<lparr>toks = [Init 0], tok_ctr = 1, curr_tok = None\<rparr>))
     = Inr (Some 0, Some \<lparr>toks = [Init 0], tok_ctr = 0, curr_tok = Some 0\<rparr>)
   \<and> TokenMgr_prev_token
       (TokenMgr_clear_tokens (Some \<lparr>toks = [Init 0], tok_ctr = 1, curr_tok = None\<rparr>))
     = Inl Out_Of_Bounds_Read
   \<and> get_first_token (Some (TokenMgr_new cap)) = Inr None
   \<and> get_last_token (Some (TokenMgr_new cap)) = Inr None"
  by (simp add: TokenMgr_next_token_def TokenMgr_prev_token_def TokenMgr_new_def
      TokenMgr_clear_tokens_def deref_cursor_def last_index_def get_first_token_def
      get_last_token_def)

end
